theory Spec2Isabelle
  imports Main "HOL-Library.Sublist"
begin

section \<open>JavaScript strings\<close>

text \<open>
  A JavaScript string is a sequence of 16-bit code units. It is modelled as a HOL
  \<^typ>\<open>string\<close>, one \<^typ>\<open>char\<close> per code unit, and a \<^typ>\<open>char\<close> has eight bits: the
  model holds exactly the strings whose code units all lie in the range U+0000 .. U+00FF
  (Latin-1). A string with a code unit above U+00FF has no counterpart in the model, and
  no statement below speaks about such a string.

  ECMAScript has four line terminators: LF, CR, LS (U+2028) and PS (U+2029). A regular
  expression dot without the \<^verbatim>\<open>s\<close> flag matches every code unit but these four. Only LF
  and CR lie in the modelled range, so \<open>isLineTerminator\<close> is the ECMAScript class cut down
  to that range (\<open>isLineTerminator_codes\<close> below); LS and PS, which stop a dot in the same
  way, are among the code units the model leaves out. The characters removed by
  \<^verbatim>\<open>String.prototype.trim\<close> are, in the modelled range, TAB, LF, VT, FF, CR, SPACE and
  NBSP.
\<close>

definition lineTerminatorCodes :: "nat list" where
  "lineTerminatorCodes = [0x0A, 0x0D, 0x2028, 0x2029]"

definition isLineTerminator :: "char \<Rightarrow> bool" where
  "isLineTerminator c \<longleftrightarrow> c = CHR 0x0A \<or> c = CHR 0x0D"

definition isWhiteSpace :: "char \<Rightarrow> bool" where
  "isWhiteSpace c \<longleftrightarrow>
     c = CHR 0x09 \<or> c = CHR 0x0A \<or> c = CHR 0x0B \<or> c = CHR 0x0C \<or> c = CHR 0x0D \<or>
     c = CHR 0x20 \<or> c = CHR 0xA0"

definition isDigit :: "char \<Rightarrow> bool" where
  "isDigit c \<longleftrightarrow> c \<in> set ''0123456789''"

definition isLetter :: "char \<Rightarrow> bool" where
  "isLetter c \<longleftrightarrow>
     c \<in> set ''abcdefghijklmnopqrstuvwxyz'' \<or> c \<in> set ''ABCDEFGHIJKLMNOPQRSTUVWXYZ''"

definition trim :: "string \<Rightarrow> string" where
  "trim s = rev (dropWhile isWhiteSpace (rev (dropWhile isWhiteSpace s)))"

text \<open>
  \<^verbatim>\<open>toUpperCase\<close> on the letters a-z. Of the other code units below 256 none is
  mapped to a letter A-Z, except U+00DF, which becomes \<^verbatim>\<open>SS\<close>. The sources compare the
  result with the word \<^verbatim>\<open>APPROVED\<close> only, which has no S, so leaving every other code
  unit unchanged does not affect the comparison. The same map is the canonicalization of
  the \<^verbatim>\<open>i\<close> flag of a regular expression without the \<^verbatim>\<open>u\<close> flag: there no code unit
  outside a-z is identified with an ASCII letter.
\<close>

definition upperChar :: "char \<Rightarrow> char" where
  "upperChar c =
     (case map_of (zip ''abcdefghijklmnopqrstuvwxyz'' ''ABCDEFGHIJKLMNOPQRSTUVWXYZ'') c of
        Some u \<Rightarrow> u
      | None \<Rightarrow> c)"

definition toUpperCase :: "string \<Rightarrow> string" where
  "toUpperCase s = map upperChar s"

definition startsWith :: "string \<Rightarrow> string \<Rightarrow> bool" where
  "startsWith s p \<longleftrightarrow> take (length p) s = p"

section \<open>Regular expressions of the fast-path lists\<close>

text \<open>
  The built-in matchers of \<^verbatim>\<open>INSTANT_ALLOW\<close> and \<^verbatim>\<open>INSTANT_DENY\<close> all start with
  \<^verbatim>\<open>^\<close> and are built from literal characters, \<^verbatim>\<open>.*\<close>, \<^verbatim>\<open>[a-zA-Z]\<close>, \<^verbatim>\<open>$\<close>,
  sequencing and alternation. \<open>rems ic r s\<close> lists what can remain of \<open>s\<close> after \<open>r\<close> has
  matched a prefix of it (\<open>ic\<close> is the \<^verbatim>\<open>i\<close> flag); \<^verbatim>\<open>RegExp.prototype.test\<close> succeeds
  when some match exists. None of the expressions carries the \<^verbatim>\<open>g\<close> or \<^verbatim>\<open>y\<close> flag,
  so \<^verbatim>\<open>test\<close> keeps no state between calls.
\<close>

datatype regex =
    Lit string
  | AnyStar
  | Letter
  | Eol
  | Seq "regex list"
  | Alt "regex list"

definition sameChar :: "bool \<Rightarrow> char \<Rightarrow> char \<Rightarrow> bool" where
  "sameChar ic a b \<longleftrightarrow> (if ic then upperChar a = upperChar b else a = b)"

fun litRest :: "bool \<Rightarrow> string \<Rightarrow> string \<Rightarrow> string option" where
  "litRest ic [] s = Some s"
| "litRest ic (c # cs) [] = None"
| "litRest ic (c # cs) (x # xs) = (if sameChar ic c x then litRest ic cs xs else None)"

fun dotStarRems :: "string \<Rightarrow> string list" where
  "dotStarRems [] = [[]]"
| "dotStarRems (c # cs) = (c # cs) # (if isLineTerminator c then [] else dotStarRems cs)"

fun rems :: "bool \<Rightarrow> regex \<Rightarrow> string \<Rightarrow> string list" where
  "rems ic (Lit l) s = (case litRest ic l s of None \<Rightarrow> [] | Some t \<Rightarrow> [t])"
| "rems ic AnyStar s = dotStarRems s"
| "rems ic Letter s = (case s of [] \<Rightarrow> [] | c # cs \<Rightarrow> if isLetter c then [cs] else [])"
| "rems ic Eol s = (if s = [] then [[]] else [])"
| "rems ic (Seq []) s = [s]"
| "rems ic (Seq (r # rs)) s = concat (map (rems ic (Seq rs)) (rems ic r s))"
| "rems ic (Alt []) s = []"
| "rems ic (Alt (r # rs)) s = rems ic r s @ rems ic (Alt rs) s"

text \<open>A compiled expression: the items that follow \<^verbatim>\<open>^\<close>, and the \<^verbatim>\<open>i\<close> flag.\<close>

datatype regexp = RegExp "regex list" bool

abbreviation re :: "regex list \<Rightarrow> regexp" where
  "re items \<equiv> RegExp items False"

abbreviation ri :: "regex list \<Rightarrow> regexp" where
  "ri items \<equiv> RegExp items True"

fun test :: "regexp \<Rightarrow> string \<Rightarrow> bool" where
  "test (RegExp items ic) s \<longleftrightarrow> rems ic (Seq items) s \<noteq> []"

definition INSTANT_ALLOW :: "regexp list" where
  "INSTANT_ALLOW = [
     re [Lit ''read:''],
     ri [Lit ''write:'', AnyStar, Lit ''.'', Alt [Lit ''ts'', Lit ''js'', Lit ''tsx'', Lit ''jsx'', Lit ''py'', Lit ''rb'', Lit ''go'', Lit ''rs'', Lit ''java'', Lit ''kt'', Lit ''swift'', Lit ''c'', Lit ''cpp'', Lit ''h'', Lit ''hpp'', Lit ''md'', Lit ''json'', Lit ''yaml'', Lit ''yml'', Lit ''toml'', Lit ''css'', Lit ''scss'', Lit ''less'', Lit ''html'', Lit ''xml'', Lit ''sql'', Lit ''sh'', Lit ''bash'', Lit ''zsh'', Lit ''fish'', Lit ''ps1'', Lit ''dockerfile'', Lit ''makefile'', Lit ''txt'', Lit ''csv'', Lit ''env.example''], Eol],
     re [Lit ''write:'', AnyStar, Lit ''/src/''],
     re [Lit ''write:'', AnyStar, Lit ''/lib/''],
     re [Lit ''write:'', AnyStar, Lit ''/test/''],
     re [Lit ''write:'', AnyStar, Lit ''/tests/''],
     re [Lit ''write:'', AnyStar, Lit ''/spec/''],
     re [Lit ''write:'', AnyStar, Lit ''/components/''],
     re [Lit ''write:'', AnyStar, Lit ''/pages/''],
     re [Lit ''write:'', AnyStar, Lit ''/app/''],
     re [Lit ''write:'', AnyStar, Lit ''/public/''],
     re [Lit ''write:'', AnyStar, Lit ''/assets/''],
     re [Lit ''write:'', AnyStar, Lit ''/styles/''],
     re [Lit ''write:'', AnyStar, Lit ''/utils/''],
     re [Lit ''write:'', AnyStar, Lit ''/hooks/''],
     re [Lit ''write:'', AnyStar, Lit ''/services/''],
     re [Lit ''write:'', AnyStar, Lit ''/api/''],
     re [Lit ''write:'', AnyStar, Lit ''/models/''],
     re [Lit ''write:'', AnyStar, Lit ''/types/''],
     re [Lit ''write:'', AnyStar, Lit ''/interfaces/''],
     re [Lit ''write:'', AnyStar, Lit ''/contracts/''],
     re [Lit ''write:'', AnyStar, Lit ''/.cline/''],
     re [Lit ''execute:npm '', Alt [Lit ''install'', Lit ''ci'', Lit ''run'', Lit ''test'', Lit ''build'', Lit ''start'', Lit ''lint'', Lit ''format'', Lit ''typecheck'', Lit ''dev'', Lit ''preview'']],
     re [Lit ''execute:npx ''],
     re [Lit ''execute:yarn ''],
     re [Lit ''execute:pnpm ''],
     re [Lit ''execute:bun ''],
     re [Lit ''execute:deno ''],
     re [Lit ''execute:cargo '', Alt [Lit ''build'', Lit ''run'', Lit ''test'', Lit ''check'', Lit ''clippy'', Lit ''fmt'', Lit ''add'', Lit ''remove'']],
     re [Lit ''execute:go '', Alt [Lit ''build'', Lit ''run'', Lit ''test'', Lit ''mod'', Lit ''get'', Lit ''fmt'', Lit ''vet'']],
     re [Lit ''execute:pip install''],
     re [Lit ''execute:pip3 install''],
     re [Lit ''execute:python ''],
     re [Lit ''execute:python3 ''],
     re [Lit ''execute:ruby ''],
     re [Lit ''execute:bundle ''],
     re [Lit ''execute:gem install''],
     re [Lit ''execute:mix ''],
     re [Lit ''execute:elixir ''],
     re [Lit ''execute:dotnet ''],
     re [Lit ''execute:mvn ''],
     re [Lit ''execute:gradle ''],
     re [Lit ''execute:make'', Alt [Eol, Lit '' '']],
     re [Lit ''execute:cmake ''],
     re [Lit ''execute:git '', Alt [Lit ''status'', Lit ''diff'', Lit ''log'', Lit ''branch'', Lit ''checkout'', Lit ''add'', Lit ''commit'', Lit ''push'', Lit ''pull'', Lit ''fetch'', Lit ''stash'', Lit ''rebase'', Lit ''merge'', Lit ''clone'', Lit ''init'', Lit ''remote'', Lit ''tag'', Lit ''show'', Lit ''blame'', Lit ''reflog'']],
     re [Lit ''execute:ls''],
     re [Lit ''execute:ll''],
     re [Lit ''execute:la''],
     re [Lit ''execute:cat ''],
     re [Lit ''execute:head ''],
     re [Lit ''execute:tail ''],
     re [Lit ''execute:less ''],
     re [Lit ''execute:more ''],
     re [Lit ''execute:grep ''],
     re [Lit ''execute:find ''],
     re [Lit ''execute:echo ''],
     re [Lit ''execute:printf ''],
     re [Lit ''execute:mkdir ''],
     re [Lit ''execute:touch ''],
     re [Lit ''execute:cp ''],
     re [Lit ''execute:mv ''],
     re [Lit ''execute:cd ''],
     re [Lit ''execute:pwd''],
     re [Lit ''execute:which ''],
     re [Lit ''execute:where ''],
     re [Lit ''execute:whoami''],
     re [Lit ''execute:date''],
     re [Lit ''execute:time ''],
     re [Lit ''execute:wc ''],
     re [Lit ''execute:sort ''],
     re [Lit ''execute:uniq ''],
     re [Lit ''execute:sed ''],
     re [Lit ''execute:awk ''],
     re [Lit ''execute:cut ''],
     re [Lit ''execute:tr ''],
     re [Lit ''execute:tee ''],
     re [Lit ''execute:xargs ''],
     re [Lit ''execute:env'', Alt [Eol, Lit '' '']],
     re [Lit ''execute:export ''],
     re [Lit ''execute:source ''],
     re [Lit ''execute:node ''],
     re [Lit ''execute:ts-node ''],
     re [Lit ''execute:tsx ''],
     re [Lit ''execute:esbuild ''],
     re [Lit ''execute:tsc'', Alt [Eol, Lit '' '']],
     re [Lit ''execute:eslint ''],
     re [Lit ''execute:prettier ''],
     re [Lit ''execute:jest ''],
     re [Lit ''execute:vitest ''],
     re [Lit ''execute:mocha ''],
     re [Lit ''execute:pytest ''],
     re [Lit ''execute:rspec ''],
     re [Lit ''execute:phpunit ''],
     re [Lit ''execute:docker '', Alt [Lit ''build'', Lit ''run'', Lit ''ps'', Lit ''images'', Lit ''logs'', Lit ''exec'', Lit ''stop'', Lit ''start'', Lit ''restart'', Lit ''pull'', Lit ''push'', Lit ''compose'']],
     re [Lit ''execute:docker-compose ''],
     re [Lit ''execute:kubectl '', Alt [Lit ''get'', Lit ''describe'', Lit ''logs'', Lit ''apply'', Lit ''delete'', Lit ''exec'', Lit ''port-forward'']],
     re [Lit ''execute:terraform '', Alt [Lit ''init'', Lit ''plan'', Lit ''apply'', Lit ''destroy'', Lit ''validate'', Lit ''fmt'']],
     re [Lit ''execute:curl '', AnyStar, Lit '' localhost''],
     re [Lit ''execute:curl '', AnyStar, Lit '' 127.0.0.1''],
     re [Lit ''execute:wget '', AnyStar, Lit '' localhost''],
     re [Lit ''execute:http ''],
     re [Lit ''browser:localhost''],
     re [Lit ''browser:127.0.0.1''],
     re [Lit ''browser:file://''],
     re [Lit ''execute:dir'', Alt [Eol, Lit '' '']],
     re [Lit ''execute:type ''],
     re [Lit ''execute:copy ''],
     re [Lit ''execute:move ''],
     re [Lit ''execute:md ''],
     re [Lit ''execute:rd ''],
     re [Lit ''execute:set'', Alt [Eol, Lit '' '']]]"

definition INSTANT_DENY :: "regexp list" where
  "INSTANT_DENY = [
     re [Lit ''execute:rm -rf /'', Eol],
     re [Lit ''execute:rm -rf /*'', Eol],
     re [Lit ''execute:rm -rf ~'', Eol],
     re [Lit ''execute:rm -rf ~/*'', Eol],
     re [Lit ''execute:rm -rf ../''],
     re [Lit ''execute:dd if='', AnyStar, Lit ''of=/dev/''],
     re [Lit ''execute:mkfs.''],
     re [Lit ''execute:fdisk ''],
     re [Lit ''execute:parted ''],
     re [Lit ''execute:rd /s /q '', Letter, Lit ('':'' @ [CHR 0x5C]), Eol],
     re [Lit ''execute:del /f /s /q '', Letter, Lit ('':'' @ [CHR 0x5C]), Eol],
     re [Lit ''execute:format '', Letter, Lit '':''],
     re [Lit ''execute:diskpart''],
     re [Lit ''execute:'', AnyStar, Lit ''>/etc/''],
     re [Lit ''execute:'', AnyStar, Lit ''>/usr/''],
     re [Lit ''execute:'', AnyStar, Lit ''>/bin/''],
     re [Lit ''execute:'', AnyStar, Lit ''>/sbin/''],
     re [Lit ''execute:'', AnyStar, Lit ''>/boot/''],
     re [Lit ''execute:'', AnyStar, Lit ''>/sys/''],
     re [Lit ''execute:'', AnyStar, Lit ''>/proc/''],
     re [Lit ''write:/etc/''],
     re [Lit ''write:/usr/''],
     re [Lit ''write:/bin/''],
     re [Lit ''write:/sbin/''],
     re [Lit ''write:/boot/''],
     ri [Lit ''write:'', Letter, Lit ('':'' @ [CHR 0x5C] @ ''Windows'' @ [CHR 0x5C])],
     ri [Lit ''write:'', Letter, Lit ('':'' @ [CHR 0x5C] @ ''Program Files'')],
     ri [Lit ''write:'', Letter, Lit ('':'' @ [CHR 0x5C] @ ''System'')],
     re [Lit ''write:'', AnyStar, Lit ''/.env'', Eol],
     re [Lit ''write:'', AnyStar, Lit ''/.env.local'', Eol],
     re [Lit ''write:'', AnyStar, Lit ''/.env.production'', Eol],
     re [Lit ''write:'', AnyStar, Lit ''/.ssh/''],
     re [Lit ''write:'', AnyStar, Lit ''/.aws/''],
     re [Lit ''write:'', AnyStar, Lit ''/.gcp/''],
     re [Lit ''write:'', AnyStar, Lit ''/.azure/''],
     ri [Lit ''write:'', AnyStar, Lit ''/credentials''],
     ri [Lit ''write:'', AnyStar, Lit ''/secrets''],
     re [Lit ''write:'', AnyStar, Lit ''/.netrc'', Eol],
     re [Lit ''write:'', AnyStar, Lit ''/.npmrc'', Eol],
     re [Lit ''write:'', AnyStar, Lit ''/.pypirc'', Eol],
     re [Lit ''execute:curl'', AnyStar, Lit ''|'', AnyStar, Lit ''sh'', Eol],
     re [Lit ''execute:curl'', AnyStar, Lit ''|'', AnyStar, Lit ''bash'', Eol],
     re [Lit ''execute:wget'', AnyStar, Lit ''|'', AnyStar, Lit ''sh'', Eol],
     re [Lit ''execute:wget'', AnyStar, Lit ''|'', AnyStar, Lit ''bash'', Eol],
     ri [Lit ''execute:powershell'', AnyStar, Lit ''-enc''],
     ri [Lit ''execute:powershell'', AnyStar, Lit ''downloadstring''],
     re [Lit ''execute:chmod 777''],
     re [Lit ''execute:chmod -R 777''],
     re [Lit ''execute:chown'', AnyStar, Lit '':'', AnyStar, Lit ''/''],
     re [Lit ''execute:sudo ''],
     re [Lit ''execute:su ''],
     re [Lit ''execute:passwd''],
     re [Lit ''execute:visudo''],
     ri [Lit ''execute:runas ''],
     re [Lit ''execute:'', AnyStar, Lit ''| curl''],
     re [Lit ''execute:'', AnyStar, Lit ''| nc ''],
     re [Lit ''execute:'', AnyStar, Lit ''| netcat''],
     re [Lit ''execute:scp '', AnyStar, Lit '' '', AnyStar, Lit ''@'', AnyStar, Lit '':''],
     re [Lit ''execute:rsync '', AnyStar, Lit '' '', AnyStar, Lit ''@'', AnyStar, Lit '':''],
     ri [Lit ''write:'', AnyStar, Lit ''wallet''],
     re [Lit ''write:'', AnyStar, Lit ''.key'', Eol],
     re [Lit ''write:'', AnyStar, Lit ''.pem'', Eol],
     ri [Lit ''write:'', AnyStar, Lit ''private'', AnyStar, Lit ''key'']]"


section \<open>The approval oracle\<close>

datatype action = Read | Write | Execute | Browser | Delete

fun actionString :: "action \<Rightarrow> string" where
  "actionString Read = ''read''"
| "actionString Write = ''write''"
| "actionString Execute = ''execute''"
| "actionString Browser = ''browser''"
| "actionString Delete = ''delete''"

record ApprovalRequest =
  action :: action
  target :: string
  requestContext :: string
  previousDecisions :: "string \<rightharpoonup> string"

datatype persistence = Once | Session | Always

record ApprovalDecision =
  allow :: bool
  persist :: persistence
  reasoning :: string

subsection \<open>Pattern extraction\<close>

text \<open>\<^verbatim>\<open>.replace(/\\/g, "/")\<close>: every backslash becomes a slash.\<close>

definition normalizeSeparators :: "string \<Rightarrow> string" where
  "normalizeSeparators s = map (\<lambda>c. if c = CHR 0x5C then CHR ''/'' else c) s"

definition fileExtensions :: "string list" where
  "fileExtensions = [''ts'', ''js'', ''tsx'', ''jsx'', ''py'', ''rb'', ''go'', ''rs'', ''java'',
     ''kt'', ''json'', ''yaml'', ''yml'', ''md'', ''css'', ''html'']"

text \<open>
  \<^verbatim>\<open>.replace(/\/[^\/]+\.(ts|js|...|html)$/i, "/*.$1")\<close>. The match has to reach the end of
  the string without crossing a slash, so it can only start at the last slash; the
  captured extension holds no dot, so it is what follows the last dot of the final
  segment, and \<^verbatim>\<open>[^\/]+\<close> needs at least one character before that dot. The capture
  keeps the case it has in the target.
\<close>

definition lastSegment :: "string \<Rightarrow> string" where
  "lastSegment s = rev (takeWhile (\<lambda>c. c \<noteq> CHR ''/'') (rev s))"

definition upToLastSlash :: "string \<Rightarrow> string" where
  "upToLastSlash s = rev (dropWhile (\<lambda>c. c \<noteq> CHR ''/'') (rev s))"

definition isFileExtension :: "string \<Rightarrow> bool" where
  "isFileExtension e \<longleftrightarrow> toUpperCase e \<in> set (map toUpperCase fileExtensions)"

text \<open>What follows the last dot of a segment (the whole segment when it has no dot), and
  what precedes it, the dot included.\<close>

definition extensionOf :: "string \<Rightarrow> string" where
  "extensionOf seg = rev (takeWhile (\<lambda>c. c \<noteq> CHR ''.'') (rev seg))"

definition stemOf :: "string \<Rightarrow> string" where
  "stemOf seg = rev (dropWhile (\<lambda>c. c \<noteq> CHR ''.'') (rev seg))"

definition matchesFile :: "string \<Rightarrow> bool" where
  "matchesFile seg \<longleftrightarrow> 2 \<le> length (stemOf seg) \<and> isFileExtension (extensionOf seg)"

definition collapseFile :: "string \<Rightarrow> string" where
  "collapseFile s =
     (if CHR ''/'' \<in> set s \<and> matchesFile (lastSegment s)
      then upToLastSlash s @ ''*.'' @ extensionOf (lastSegment s)
      else s)"

text \<open>
  \<^verbatim>\<open>.replace(/\/dir\/.*/, "/dir/*")\<close>, without the \<^verbatim>\<open>g\<close> flag: the leftmost
  occurrence of \<^verbatim>\<open>/dir/\<close> and the rest of its line are replaced.
\<close>

fun collapseDir :: "string \<Rightarrow> string \<Rightarrow> string" where
  "collapseDir d [] = []"
| "collapseDir d (c # cs) =
     (if take (length d + 2) (c # cs) = ''/'' @ d @ ''/''
      then ''/'' @ d @ ''/*'' @ dropWhile (\<lambda>x. \<not> isLineTerminator x) (drop (length d + 2) (c # cs))
      else c # collapseDir d cs)"

text \<open>\<^verbatim>\<open>.replace(/:\d+/, ":*")\<close>, without the \<^verbatim>\<open>g\<close> flag: the first colon that is
  followed by a digit, with all the digits after it.\<close>

fun collapsePort :: "string \<Rightarrow> string" where
  "collapsePort [] = []"
| "collapsePort [c] = [c]"
| "collapsePort (c # d # cs) =
     (if c = CHR '':'' \<and> isDigit d then '':*'' @ dropWhile isDigit cs
      else c # collapsePort (d # cs))"

text \<open>\<^verbatim>\<open>.replace(/\/\d+/g, "/*")\<close>: every slash that is followed by a digit, with all the
  digits after it.\<close>

function collapseNumbers :: "string \<Rightarrow> string" where
  "collapseNumbers [] = []"
| "collapseNumbers [c] = [c]"
| "collapseNumbers (c # d # cs) =
     (if c = CHR ''/'' \<and> isDigit d then ''/*'' @ collapseNumbers (dropWhile isDigit cs)
      else c # collapseNumbers (d # cs))"
  by pat_completeness auto
termination
  by (relation "measure length") (auto simp: length_dropWhile_le less_Suc_eq_le le_SucI)

definition generalize :: "string \<Rightarrow> string" where
  "generalize t =
     collapseNumbers (collapsePort (
       collapseDir ''__pycache__'' (collapseDir ''vendor'' (collapseDir ''target'' (
       collapseDir ''.next'' (collapseDir ''build'' (collapseDir ''dist'' (
       collapseDir ''node_modules'' (
     collapseFile (normalizeSeparators t))))))))))"

definition extractPattern :: "ApprovalRequest \<Rightarrow> string" where
  "extractPattern request = actionString (action request) @ '':'' @ generalize (target request)"

definition literal :: "ApprovalRequest \<Rightarrow> string" where
  "literal request = actionString (action request) @ '':'' @ normalizeSeparators (target request)"

subsection \<open>The adjudicator and its response\<close>

text \<open>
  The client is external: a call either throws or returns a message, a list of content
  blocks of which only the first one's \<^verbatim>\<open>text\<close> is read. Its behaviour may change from
  call to call, so it is a function on a state \<open>'w\<close> of the outside world, passed along.
\<close>

datatype contentBlock = TextBlock string | OtherBlock

datatype apiResult = ApiError | ApiResponse "contentBlock list"

type_synonym 'w client = "'w \<Rightarrow> string \<Rightarrow> apiResult \<times> 'w"

text \<open>What \<^verbatim>\<open>JSON.parse\<close> returns. The function itself belongs to the language, not to
  the repository, and is a parameter (\<open>None\<close> when it throws).\<close>

datatype json =
    JNull
  | JBool bool
  | JNumber int
  | JString string
  | JArray "json list"
  | JObject "(string \<times> json) list"

fun field :: "json \<Rightarrow> string \<Rightarrow> json option" where
  "field (JObject kvs) k = map_of kvs k"
| "field _ k = None"

text \<open>\<^verbatim>\<open>text.replace(/```json\n?|\n?```/g, "")\<close>\<close>

function stripFences :: "string \<Rightarrow> string" where
  "stripFences [] = []"
| "stripFences (c # cs) =
     (if take 7 (c # cs) = ''```json'' then
        (case drop 7 (c # cs) of
           [] \<Rightarrow> []
         | x # xs \<Rightarrow> if x = CHR 0x0A then stripFences xs else stripFences (x # xs))
      else if take 4 (c # cs) = CHR 0x0A # ''```'' then stripFences (drop 4 (c # cs))
      else if take 3 (c # cs) = ''```'' then stripFences (drop 3 (c # cs))
      else c # stripFences cs)"
  by pat_completeness auto
termination
proof (relation "measure length")
  fix c cs x xs
  assume "drop 7 (c # cs) = x # xs"
  then have "length (x # xs) = length (c # cs) - 7" by (metis length_drop)
  then show "(xs, c # cs) \<in> measure length" "(x # xs, c # cs) \<in> measure length" by auto
qed auto

definition responseText :: "contentBlock list \<Rightarrow> string" where
  "responseText blocks = (case blocks of TextBlock t # _ \<Rightarrow> t | _ \<Rightarrow> [])"

definition parseFailed :: ApprovalDecision where
  "parseFailed = \<lparr>allow = True, persist = Once, reasoning = ''Parse failed, allowing once''\<rparr>"

definition parseResponse :: "(string \<Rightarrow> json option) \<Rightarrow> contentBlock list \<Rightarrow> ApprovalDecision" where
  "parseResponse JSON_parse blocks =
     (case JSON_parse (trim (stripFences (responseText blocks))) of
        None \<Rightarrow> parseFailed
      | Some parsed \<Rightarrow>
          (case field parsed ''allow'' of
             Some (JBool b) \<Rightarrow>
               \<lparr>allow = b,
                persist =
                  (case field parsed ''persist'' of
                     Some (JString p) \<Rightarrow>
                       if p = ''once'' then Once
                       else if p = ''session'' then Session
                       else if p = ''always'' then Always
                       else Once
                   | _ \<Rightarrow> Once),
                reasoning =
                  (case field parsed ''reasoning'' of
                     Some (JString r) \<Rightarrow> r
                   | _ \<Rightarrow> ''No reason provided'')\<rparr>
           | _ \<Rightarrow> parseFailed))"

subsection \<open>The oracle\<close>

type_synonym matcher = "string \<Rightarrow> bool"

record ApprovalOracle =
  allowList :: "matcher list"
  denyList :: "matcher list"
  persistedRules :: "string \<rightharpoonup> bool"

text \<open>The constructor appends the custom patterns to the built-in lists. It compiles them
  with \<^verbatim>\<open>new RegExp(p)\<close>, without flags; here they are given compiled, as predicates on
  strings, and compilation (which throws on a malformed pattern) is left out.\<close>

definition newApprovalOracle :: "matcher list \<Rightarrow> matcher list \<Rightarrow> ApprovalOracle" where
  "newApprovalOracle customAllowPatterns customDenyPatterns =
     \<lparr>allowList = map test INSTANT_ALLOW @ customAllowPatterns,
      denyList = map test INSTANT_DENY @ customDenyPatterns,
      persistedRules = Map.empty\<rparr>"

definition userMessage :: "ApprovalRequest \<Rightarrow> string \<Rightarrow> string" where
  "userMessage request pattern =
     ''Action: '' @ actionString (action request) @
     ''\<newline>Target: '' @ target request @
     ''\<newline>Context: '' @ requestContext request @
     ''\<newline>Generalized pattern: '' @ pattern @
     ''\<newline>\<newline>Decide.''"

definition apiErrorDecision :: ApprovalDecision where
  "apiErrorDecision = \<lparr>allow = True, persist = Once, reasoning = ''API error, allowing once''\<rparr>"

definition askOpus ::
  "'w client \<Rightarrow> (string \<Rightarrow> json option) \<Rightarrow> ApprovalOracle \<Rightarrow> 'w \<Rightarrow> ApprovalRequest \<Rightarrow> string
     \<Rightarrow> ApprovalDecision \<times> ApprovalOracle \<times> 'w" where
  "askOpus client JSON_parse orc w request pattern =
     (case client w (userMessage request pattern) of
        (ApiError, w') \<Rightarrow> (apiErrorDecision, orc, w')
      | (ApiResponse blocks, w') \<Rightarrow>
          (let decision = parseResponse JSON_parse blocks
           in (decision,
               if persist decision = Always
               then orc\<lparr>persistedRules := (persistedRules orc)(pattern \<mapsto> allow decision)\<rparr>
               else orc,
               w')))"

definition decide ::
  "'w client \<Rightarrow> (string \<Rightarrow> json option) \<Rightarrow> ApprovalOracle \<Rightarrow> 'w \<Rightarrow> ApprovalRequest
     \<Rightarrow> ApprovalDecision \<times> ApprovalOracle \<times> 'w" where
  "decide client JSON_parse orc w request =
     (let pattern = extractPattern request
      in case persistedRules orc pattern of
           Some cached \<Rightarrow>
             (\<lparr>allow = cached, persist = Always, reasoning = ''Cached rule''\<rparr>, orc, w)
         | None \<Rightarrow>
             if list_ex (\<lambda>m. m (literal request)) (denyList orc) then
               (\<lparr>allow = False, persist = Always, reasoning = ''Blocked pattern''\<rparr>,
                orc\<lparr>persistedRules := (persistedRules orc)(pattern \<mapsto> False)\<rparr>, w)
             else if list_ex (\<lambda>m. m (literal request)) (allowList orc) then
               (\<lparr>allow = True, persist = Always, reasoning = ''Safe pattern''\<rparr>,
                orc\<lparr>persistedRules := (persistedRules orc)(pattern \<mapsto> True)\<rparr>, w)
             else askOpus client JSON_parse orc w request pattern)"


section \<open>The architect orchestrator\<close>

subsection \<open>Persona injection\<close>

datatype role = Architect | Editor

datatype applyTo = ToArchitect | ToEditor | ToBoth

datatype position = Prepend | Append

record PersonaConfig =
  enabled :: bool
  markdown :: string
  applyTo :: applyTo
  position :: position

definition inject :: "string \<Rightarrow> string \<Rightarrow> position \<Rightarrow> string" where
  "inject systemPrompt persona pos =
     (if trim persona = [] then systemPrompt
      else let wrapped = ''<persona>\<newline>'' @ trim persona @ ''\<newline></persona>''
           in case pos of
                Prepend \<Rightarrow> wrapped @ ''\<newline>\<newline>'' @ systemPrompt
              | Append \<Rightarrow> systemPrompt @ ''\<newline>\<newline>'' @ wrapped)"

fun appliesTo :: "applyTo \<Rightarrow> role \<Rightarrow> bool" where
  "appliesTo ToBoth r = True"
| "appliesTo ToArchitect r = (r = Architect)"
| "appliesTo ToEditor r = (r = Editor)"

definition injectFromConfig :: "string \<Rightarrow> PersonaConfig option \<Rightarrow> role \<Rightarrow> string" where
  "injectFromConfig systemPrompt config r =
     (case config of
        None \<Rightarrow> systemPrompt
      | Some c \<Rightarrow>
          if enabled c \<and> markdown c \<noteq> [] then
            (if appliesTo (applyTo c) r then inject systemPrompt (markdown c) (position c)
             else systemPrompt)
          else systemPrompt)"

subsection \<open>Role backends and their responses\<close>

text \<open>
  A role backend streams chunks; \<^verbatim>\<open>collectStreamResponse\<close> drains the stream before
  anything is done with it, so a call either throws (what was read is dropped with the
  local array) or yields all chunks. Backends are external and their answers may differ
  from call to call: they are functions on the state \<open>'w\<close> of the outside world.
\<close>

datatype exception = Exception string

datatype chunk = TextChunk string | ReasoningChunk string | OtherChunk

datatype responseBlock = Text string | Thinking string

type_synonym 'w handler = "'w \<Rightarrow> string \<Rightarrow> string \<Rightarrow> (exception + chunk list) \<times> 'w"

fun blockOf :: "chunk \<Rightarrow> responseBlock list" where
  "blockOf (TextChunk t) = [Text t]"
| "blockOf (ReasoningChunk r) = [Thinking r]"
| "blockOf OtherChunk = []"

definition collectStreamResponse ::
  "'w handler \<Rightarrow> 'w \<Rightarrow> string \<Rightarrow> string \<Rightarrow> (exception + responseBlock list) \<times> 'w" where
  "collectStreamResponse h w systemPrompt message =
     (case h w systemPrompt message of
        (Inl e, w') \<Rightarrow> (Inl e, w')
      | (Inr chunks, w') \<Rightarrow> (Inr (concat (map blockOf chunks)), w'))"

record roleResult =
  content :: string
  thinking :: string

fun textOf :: "responseBlock \<Rightarrow> string" where
  "textOf (Text t) = t"
| "textOf (Thinking r) = []"

fun thinkingOf :: "responseBlock \<Rightarrow> string" where
  "thinkingOf (Text t) = []"
| "thinkingOf (Thinking r) = r"

definition extractThinkingAndContent :: "responseBlock list \<Rightarrow> roleResult" where
  "extractThinkingAndContent blocks =
     \<lparr>content = concat (map textOf blocks), thinking = concat (map thinkingOf blocks)\<rparr>"

definition extractContent :: "responseBlock list \<Rightarrow> string" where
  "extractContent blocks = concat (map textOf blocks)"

subsection \<open>The advisory collaborator\<close>

record ArchitectureReview =
  needsReview :: bool
  signals :: "string list"
  recommendation :: string
  options :: "string list"

text \<open>
  The analyzer reads the workspace: \<^verbatim>\<open>analyzeChange\<close> is a function on the outside
  world and may throw; \<^verbatim>\<open>getTypesContext\<close> returns text that was loaded when the
  analyzer was constructed.
\<close>

record 'w analyzer =
  getTypesContext :: string
  analyzeChange :: "'w \<Rightarrow> string \<Rightarrow> string \<Rightarrow> (exception + ArchitectureReview) \<times> 'w"

subsection \<open>Configuration, state and updates\<close>

record ArchitectConfig =
  maxIterations :: int
  persona :: "PersonaConfig option"

record 'w orchestrator =
  config :: ArchitectConfig
  architectHandler :: "'w handler"
  editorHandler :: "'w handler"
  architectureAnalyzer :: "'w analyzer option"

datatype phase = Planning | Implementing | Evaluating | Complete | Failed

record ArchitectState =
  phase :: phase
  currentIteration :: int
  plan :: "string option"
  implementation :: "string option"
  evaluation :: "string option"
  thinkingContent :: "string option"

definition initialState :: ArchitectState where
  "initialState =
     \<lparr>phase = Planning, currentIteration = 0, plan = None, implementation = None,
      evaluation = None, thinkingContent = None\<rparr>"

datatype ArchitectUpdate =
    PhaseUpdate phase int
  | ThinkingUpdate string
  | PlanUpdate string string
  | ImplementationUpdate string
  | EvaluationUpdate string string
  | ArchitectureReviewUpdate string "string list"
  | CompleteUpdate int
  | MaxIterationsUpdate int

subsection \<open>The three role calls\<close>

definition planPrompt :: string where
  "planPrompt = concat [
      ''You are the Architect. Your role is to reason deeply about the task and produce a detailed implementation plan.\<newline>'',
      ''\<newline>'',
      ''You will NOT write code. You will:\<newline>'',
      ''1. Analyze the task requirements thoroughly\<newline>'',
      ''2. Identify the files that need to be created or modified\<newline>'',
      ''3. Specify the exact changes needed in each file\<newline>'',
      ''4. Anticipate edge cases and failure modes\<newline>'',
      ''5. Provide clear, unambiguous instructions for the Editor\<newline>'',
      ''\<newline>'',
      ''Your plan will be passed to a separate Editor model that will implement it.\<newline>'',
      ''The Editor cannot see your thinking process, only your final plan.\<newline>'',
      ''Be precise and explicit.\<newline>'',
      ''\<newline>'',
      ''Format your plan as:\<newline>'',
      ''## Analysis\<newline>'',
      ''[Your understanding of the task]\<newline>'',
      ''\<newline>'',
      ''## Files to Modify\<newline>'',
      ''[List each file with what needs to change]\<newline>'',
      ''\<newline>'',
      ''## Implementation Steps\<newline>'',
      ''[Numbered steps the Editor should follow]\<newline>'',
      ''\<newline>'',
      ''## Edge Cases\<newline>'',
      ''[What could go wrong and how to handle it]\<newline>'',
      ''\<newline>'',
      ''## Acceptance Criteria\<newline>'',
      ''[How to verify the implementation is correct]'']"

definition editorPrompt :: string where
  "editorPrompt = concat [
      ''You are the Editor. Your role is to implement the Architect's plan precisely.\<newline>'',
      ''\<newline>'',
      ''You will:\<newline>'',
      ''1. Follow the plan exactly as specified\<newline>'',
      ''2. Write clean, working code\<newline>'',
      ''3. Make only the changes specified in the plan\<newline>'',
      ''4. Include all necessary imports and dependencies\<newline>'',
      ''5. Handle the edge cases mentioned in the plan\<newline>'',
      ''\<newline>'',
      ''If the plan is ambiguous on a specific point, make your best judgment and note it clearly.\<newline>'',
      ''\<newline>'',
      ''Output your implementation as a series of file changes:\<newline>'',
      ''\<newline>'',
      ''<file path=\"path/to/file.ts\">\<newline>'',
      ''[complete file contents]\<newline>'',
      ''</file>\<newline>'',
      ''\<newline>'',
      ''<file path=\"path/to/other.ts\">\<newline>'',
      ''[complete file contents]\<newline>'',
      ''</file>\<newline>'',
      ''\<newline>'',
      ''Include the complete file contents, not diffs.'']"

definition evaluatePrompt :: "string \<Rightarrow> string" where
  "evaluatePrompt architectureContext = concat [
      ''You are the Architect reviewing the Editor's implementation.\<newline>'',
      ''\<newline>'',
      ''Evaluate thoroughly:\<newline>'',
      ''1. Does the implementation match the plan?\<newline>'',
      ''2. Does it satisfy the original task requirements?\<newline>'',
      ''3. Are there bugs, edge cases, or issues?\<newline>'',
      ''4. Is the code clean, maintainable, and follows best practices?\<newline>'',
      ''5. Are naming conventions consistent?\<newline>'',
      ''6. Are all acceptance criteria met?\<newline>'',
      ''\<newline>'',
      ''''] @
    architectureContext @ concat [
      ''\<newline>'',
      ''\<newline>'',
      ''If the implementation is acceptable, respond starting with: \"APPROVED: \" followed by a brief summary.\<newline>'',
      ''\<newline>'',
      ''If changes are needed, respond starting with: \"REVISION NEEDED: \" followed by:\<newline>'',
      ''- Specific issues found\<newline>'',
      ''- Exact corrections required\<newline>'',
      ''- Any clarifications to the plan'']"

definition architectPlan ::
  "'w orchestrator \<Rightarrow> 'w \<Rightarrow> string \<Rightarrow> string \<Rightarrow> (exception + roleResult) \<times> 'w" where
  "architectPlan orch w task ctx =
     (let systemPrompt = injectFromConfig planPrompt (persona (config orch)) Architect;
          message = ''Context:\<newline>'' @ ctx @ ''\<newline>\<newline>Task:\<newline>'' @ task @
            ''\<newline>\<newline>Provide your implementation plan.''
      in case collectStreamResponse (architectHandler orch) w systemPrompt message of
           (Inl e, w') \<Rightarrow> (Inl e, w')
         | (Inr response, w') \<Rightarrow> (Inr (extractThinkingAndContent response), w'))"

definition editorImplement ::
  "'w orchestrator \<Rightarrow> 'w \<Rightarrow> string \<Rightarrow> string \<Rightarrow> (exception + string) \<times> 'w" where
  "editorImplement orch w pl ctx =
     (let systemPrompt = injectFromConfig editorPrompt (persona (config orch)) Editor;
          message = ''Context:\<newline>'' @ ctx @
            ''\<newline>\<newline>---\<newline>\<newline>Architect's Plan:\<newline>'' @ pl @
            ''\<newline>\<newline>Implement this plan now.''
      in case collectStreamResponse (editorHandler orch) w systemPrompt message of
           (Inl e, w') \<Rightarrow> (Inl e, w')
         | (Inr response, w') \<Rightarrow> (Inr (extractContent response), w'))"

definition architectureContextOf :: "'w analyzer option \<Rightarrow> string" where
  "architectureContextOf a =
     (case a of
        None \<Rightarrow> []
      | Some an \<Rightarrow>
          if getTypesContext an = [] then []
          else ''\<newline>\<newline>'' @ getTypesContext an @
            ''\<newline>\<newline>Verify the implementation follows these type definitions and naming conventions.'')"

definition architectEvaluate ::
  "'w orchestrator \<Rightarrow> 'w \<Rightarrow> string \<Rightarrow> string \<Rightarrow> string \<Rightarrow> string
     \<Rightarrow> (exception + roleResult) \<times> 'w" where
  "architectEvaluate orch w task pl impl ctx =
     (let systemPrompt =
            injectFromConfig (evaluatePrompt (architectureContextOf (architectureAnalyzer orch)))
              (persona (config orch)) Architect;
          message = ''Original Task:\<newline>'' @ task @
            ''\<newline>\<newline>---\<newline>\<newline>Plan:\<newline>'' @ pl @
            ''\<newline>\<newline>---\<newline>\<newline>Implementation:\<newline>'' @ impl @
            ''\<newline>\<newline>---\<newline>\<newline>Context:\<newline>'' @ ctx @
            ''\<newline>\<newline>Evaluate the implementation.''
      in case collectStreamResponse (architectHandler orch) w systemPrompt message of
           (Inl e, w') \<Rightarrow> (Inl e, w')
         | (Inr response, w') \<Rightarrow> (Inr (extractThinkingAndContent response), w'))"

subsection \<open>Architecture review of an implementation\<close>

text \<open>\<open>findSub p s\<close> splits \<open>s\<close> around the first occurrence of \<open>p\<close>.\<close>

fun findSub :: "string \<Rightarrow> string \<Rightarrow> (string \<times> string) option" where
  "findSub p [] = (if p = [] then Some ([], []) else None)"
| "findSub p (c # cs) =
     (if take (length p) (c # cs) = p then Some ([], drop (length p) (c # cs))
      else case findSub p cs of
             None \<Rightarrow> None
           | Some (before, after) \<Rightarrow> Some (c # before, after))"

text \<open>
  A match of \<^verbatim>\<open>/<file path="([^"]+)">([\s\S]*?)<\/file>/\<close> at the start of a string: the
  path runs up to the next double quote and is not empty, the content is lazy and ends
  at the first closing tag. The result holds the two captures and what follows the match.
\<close>

definition matchFileAt :: "string \<Rightarrow> (string \<times> string \<times> string) option" where
  "matchFileAt s =
     (if take 12 s = ''<file path=\"'' then
        (let filePath = takeWhile (\<lambda>c. c \<noteq> CHR 0x22) (drop 12 s);
             rest = dropWhile (\<lambda>c. c \<noteq> CHR 0x22) (drop 12 s)
         in if filePath \<noteq> [] \<and> take 2 rest = ''\">'' then
              (case findSub ''</file>'' (drop 2 rest) of
                 None \<Rightarrow> None
               | Some (body, after) \<Rightarrow> Some (filePath, body, after))
            else None)
      else None)"

text \<open>The \<^verbatim>\<open>exec\<close> loop of the \<^verbatim>\<open>g\<close> expression: successive matches, each search
  starting where the previous match ended.\<close>

function fileMatches :: "string \<Rightarrow> (string \<times> string) list" where
  "fileMatches [] = []"
| "fileMatches (c # cs) =
     (case matchFileAt (c # cs) of
        None \<Rightarrow> fileMatches cs
      | Some (filePath, body, after) \<Rightarrow> (filePath, body) # fileMatches after)"
  by pat_completeness auto
termination
proof (relation "measure length")
  fix c :: char and cs filePath body after x y
  assume "matchFileAt (c # cs) = Some x" "(filePath, y) = x" "(body, after) = y"
  then have m: "matchFileAt (c # cs) = Some (filePath, body, after)" by simp
  have suffix: "findSub p s = Some (b, a) \<Longrightarrow> length a \<le> length s" for p s b a
    by (induction s arbitrary: b) (auto split: if_splits option.splits)
  let ?rest = "dropWhile (\<lambda>c. c \<noteq> CHR 0x22) (drop 12 (c # cs))"
  from m have "findSub ''</file>'' (drop 2 ?rest) = Some (body, after)"
    by (auto simp: matchFileAt_def Let_def split: if_splits option.splits)
  from suffix [OF this] have "length after \<le> length ?rest - 2" by simp
  also have "\<dots> \<le> length (drop 12 (c # cs))"
    using length_dropWhile_le [of "\<lambda>c. c \<noteq> CHR 0x22" "drop 12 (c # cs)"] by simp
  also have "\<dots> < length (c # cs)" by simp
  finally show "(after, c # cs) \<in> measure length" by simp
qed auto

text \<open>
  \<^verbatim>\<open>Array.prototype.join\<close>.
\<close>

fun join :: "string \<Rightarrow> string list \<Rightarrow> string" where
  "join sep [] = []"
| "join sep [x] = x"
| "join sep (x # y # ys) = x @ sep @ join sep (y # ys)"

definition issueText :: "string \<Rightarrow> ArchitectureReview \<Rightarrow> string" where
  "issueText filePath review =
     filePath @ '':\<newline>  Signals: '' @ join '', '' (signals review) @
     ''\<newline>  Recommendation: '' @ recommendation review"

fun collectIssues ::
  "'w analyzer \<Rightarrow> 'w \<Rightarrow> (string \<times> string) list \<Rightarrow> (exception + string list) \<times> 'w" where
  "collectIssues an w [] = (Inr [], w)"
| "collectIssues an w ((filePath, body) # ms) =
     (case analyzeChange an w filePath body of
        (Inl e, w') \<Rightarrow> (Inl e, w')
      | (Inr review, w') \<Rightarrow>
          (case collectIssues an w' ms of
             (Inl e, w'') \<Rightarrow> (Inl e, w'')
           | (Inr issues, w'') \<Rightarrow>
               (Inr ((if needsReview review then [issueText filePath review] else []) @ issues),
                w'')))"

definition reviewArchitecture ::
  "'w orchestrator \<Rightarrow> 'w \<Rightarrow> string \<Rightarrow> (exception + ArchitectUpdate option) \<times> 'w" where
  "reviewArchitecture orch w impl =
     (case architectureAnalyzer orch of
        None \<Rightarrow> (Inr None, w)
      | Some an \<Rightarrow>
          (case collectIssues an w (fileMatches impl) of
             (Inl e, w') \<Rightarrow> (Inl e, w')
           | (Inr issues, w') \<Rightarrow>
               if issues = [] then (Inr None, w')
               else (Inr (Some (ArchitectureReviewUpdate
                       (''Architectural concerns detected:\<newline>\<newline>'' @
                        join ''\<newline>\<newline>'' issues)
                       [''Proceed with current implementation'',
                        ''Revise to address concerns''])),
                     w')))"

subsection \<open>The loop\<close>

definition isComplete :: "string \<Rightarrow> bool" where
  "isComplete ev = startsWith (toUpperCase (trim ev)) ''APPROVED''"

definition updateContext :: "string \<Rightarrow> string \<Rightarrow> string \<Rightarrow> string" where
  "updateContext ctx impl ev =
     ctx @
     ''\<newline>\<newline>---\<newline>\<newline>## Previous Iteration\<newline>\<newline>### Implementation Attempt\<newline>'' @
     impl @
     ''\<newline>\<newline>### Architect Feedback\<newline>'' @
     ev @
     ''\<newline>\<newline>---\<newline>\<newline>Address the feedback above in the next iteration.''"

text \<open>How one pass of the loop body ends: a role call or the review threw, the evaluation
  was approved, or the loop goes on with the updated context.\<close>

datatype outcome = Threw exception | Approved | Continue string

definition thinkingUpdates :: "string \<Rightarrow> ArchitectUpdate list" where
  "thinkingUpdates t = (if t = [] then [] else [ThinkingUpdate t])"

definition iteration ::
  "'w orchestrator \<Rightarrow> ArchitectState \<Rightarrow> 'w \<Rightarrow> string \<Rightarrow> string
     \<Rightarrow> ArchitectUpdate list \<times> ArchitectState \<times> 'w \<times> outcome" where
  "iteration orch st w task ctx =
     (let n = currentIteration st + 1;
          st1 = st\<lparr>currentIteration := n, phase := Planning\<rparr>;
          us1 = [PhaseUpdate Planning n]
      in case architectPlan orch w task ctx of
           (Inl e, w1) \<Rightarrow> (us1, st1, w1, Threw e)
         | (Inr pl, w1) \<Rightarrow>
      (let st2 = st1\<lparr>plan := Some (content pl), thinkingContent := Some (thinking pl),
                      phase := Implementing\<rparr>;
           us2 = us1 @ thinkingUpdates (thinking pl) @
                 [PlanUpdate (content pl) (thinking pl), PhaseUpdate Implementing n]
       in case editorImplement orch w1 (content pl) ctx of
            (Inl e, w2) \<Rightarrow> (us2, st2, w2, Threw e)
          | (Inr impl, w2) \<Rightarrow>
      (let st3 = st2\<lparr>implementation := Some impl\<rparr>;
           us3 = us2 @ [ImplementationUpdate impl]
       in case reviewArchitecture orch w2 impl of
            (Inl e, w3) \<Rightarrow> (us3, st3, w3, Threw e)
          | (Inr review, w3) \<Rightarrow>
      (let st4 = st3\<lparr>phase := Evaluating\<rparr>;
           us4 = us3 @ (case review of None \<Rightarrow> [] | Some u \<Rightarrow> [u]) @
                 [PhaseUpdate Evaluating n]
       in case architectEvaluate orch w3 task (content pl) impl ctx of
            (Inl e, w4) \<Rightarrow> (us4, st4, w4, Threw e)
          | (Inr ev, w4) \<Rightarrow>
      (let st5 = st4\<lparr>evaluation := Some (content ev)\<rparr>;
           us5 = us4 @ thinkingUpdates (thinking ev) @
                 [EvaluationUpdate (content ev) (thinking ev)]
       in if isComplete (content ev)
          then (us5 @ [CompleteUpdate n], st5\<lparr>phase := Complete\<rparr>, w4, Approved)
          else (us5, st5, w4, Continue (updateContext ctx impl (content ev))))))))"

text \<open>
  The \<^verbatim>\<open>while\<close> loop of \<^verbatim>\<open>run\<close>, with the updates it yields in order, the final
  state, the outside world, and the error that left the generator, if any.
\<close>

function runLoop ::
  "'w orchestrator \<Rightarrow> ArchitectState \<Rightarrow> 'w \<Rightarrow> string \<Rightarrow> string
     \<Rightarrow> ArchitectUpdate list \<times> ArchitectState \<times> 'w \<times> exception option" where
  "runLoop orch st w task ctx =
     (if currentIteration st < maxIterations (config orch) then
        (case iteration orch st w task ctx of
           (us, st', w', Threw e) \<Rightarrow> (us, st', w', Some e)
         | (us, st', w', Approved) \<Rightarrow> (us, st', w', None)
         | (us, st', w', Continue ctx') \<Rightarrow>
             (case runLoop orch st' w' task ctx' of
                (us2, st2, w2, r) \<Rightarrow> (us @ us2, st2, w2, r)))
      else ([MaxIterationsUpdate (currentIteration st)], st\<lparr>phase := Failed\<rparr>, w, None))"
  by pat_completeness auto
termination
proof (relation "measure (\<lambda>(orch, st, w, task, ctx).
    nat (maxIterations (config orch) - currentIteration st))")
  fix orch :: "'w orchestrator" and st w task ctx us y st' z w' o' ctx'
  assume lt: "currentIteration st < maxIterations (config orch)"
    and "(us, y) = iteration orch st w task ctx" "(st', z) = y" "(w', o') = z"
      "o' = Continue ctx'"
  then have it: "iteration orch st w task ctx = (us, st', w', Continue ctx')" by auto
  have "currentIteration st' = currentIteration st + 1"
    using it
    by (auto simp: iteration_def Let_def split: prod.splits sum.splits if_splits)
  with lt show "((orch, st', w', task, ctx'), (orch, st, w, task, ctx))
      \<in> measure (\<lambda>(orch, st, w, task, ctx).
          nat (maxIterations (config orch) - currentIteration st))"
    by simp
qed simp

definition injectTypes :: "'w orchestrator \<Rightarrow> string \<Rightarrow> string" where
  "injectTypes orch codebaseContext =
     (case architectureAnalyzer orch of
        None \<Rightarrow> codebaseContext
      | Some an \<Rightarrow>
          if getTypesContext an = [] then codebaseContext
          else getTypesContext an @ ''\<newline>\<newline>'' @ codebaseContext)"

definition run ::
  "'w orchestrator \<Rightarrow> ArchitectState \<Rightarrow> 'w \<Rightarrow> string \<Rightarrow> string
     \<Rightarrow> ArchitectUpdate list \<times> ArchitectState \<times> 'w \<times> exception option" where
  "run orch st w task codebaseContext = runLoop orch st w task (injectTypes orch codebaseContext)"

subsection \<open>The settings panel\<close>

text \<open>
  The change handler of the "Max Iterations (1-10)" field:
  \<^verbatim>\<open>const val = parseInt(e.target.value) || 5; update({ maxIterations: Math.max(1, Math.min(10, val)) })\<close>.
  \<^verbatim>\<open>parseInt\<close> yields an integer or NaN (\<open>None\<close>); NaN and 0 are falsy.
\<close>

definition onMaxIterationsChange :: "int option \<Rightarrow> int" where
  "onMaxIterationsChange parsed =
     (let val = (case parsed of None \<Rightarrow> 5 | Some v \<Rightarrow> if v = 0 then 5 else v)
      in max 1 (min 10 val))"


subsection \<open>Observing the adjudicator\<close>

text \<open>\<open>counting client\<close> behaves as \<open>client\<close> and counts the calls made to it.\<close>

definition counting :: "'w client \<Rightarrow> (nat \<times> 'w) client" where
  "counting client = (\<lambda>(n, w) message. case client w message of (r, w') \<Rightarrow> (r, (Suc n, w')))"

text \<open>A sequence of \<^verbatim>\<open>decide\<close> calls on one oracle, one after the other.\<close>

fun decideAll ::
  "'w client \<Rightarrow> (string \<Rightarrow> json option) \<Rightarrow> ApprovalOracle \<Rightarrow> 'w \<Rightarrow> ApprovalRequest list
     \<Rightarrow> ApprovalDecision list \<times> ApprovalOracle \<times> 'w" where
  "decideAll client JSON_parse orc w [] = ([], orc, w)"
| "decideAll client JSON_parse orc w (request # requests) =
     (case decide client JSON_parse orc w request of
        (decision, orc', w') \<Rightarrow>
          (case decideAll client JSON_parse orc' w' requests of
             (decisions, orc'', w'') \<Rightarrow> (decision # decisions, orc'', w'')))"

definition adjudicatorCalls ::
  "'w client \<Rightarrow> (string \<Rightarrow> json option) \<Rightarrow> ApprovalOracle \<Rightarrow> 'w \<Rightarrow> ApprovalRequest list \<Rightarrow> nat" where
  "adjudicatorCalls client JSON_parse orc w requests =
     fst (snd (snd (decideAll (counting client) JSON_parse orc (0, w) requests)))"

subsection \<open>Concrete requests and collaborators used as examples\<close>

definition writeRequest :: "string \<Rightarrow> ApprovalRequest" where
  "writeRequest t =
     \<lparr>action = Write, target = t, requestContext = ''...'', previousDecisions = Map.empty\<rparr>"

definition deleteRequest :: "string \<Rightarrow> ApprovalRequest" where
  "deleteRequest t =
     \<lparr>action = Delete, target = t, requestContext = ''...'', previousDecisions = Map.empty\<rparr>"

definition failingClient :: "unit client" where
  "failingClient = (\<lambda>w message. (ApiError, w))"

definition onceText :: string where
  "onceText = ''{\"allow\":true,\"persist\":\"once\",\"reasoning\":\"one-off\"}''"

definition onceClient :: "unit client" where
  "onceClient = (\<lambda>w message. (ApiResponse [TextBlock onceText], w))"

text \<open>A stand-in for \<^verbatim>\<open>JSON.parse\<close> that is right on \<open>onceText\<close> and rejects everything else.\<close>

definition onceParse :: "string \<Rightarrow> json option" where
  "onceParse s =
     (if s = onceText
      then Some (JObject [(''allow'', JBool True), (''persist'', JString ''once''),
                          (''reasoning'', JString ''one-off'')])
      else None)"

text \<open>An adjudicator that answers every request with scope always, and a stand-in for
  \<^verbatim>\<open>JSON.parse\<close> that is right on its answer and rejects everything else.\<close>

definition alwaysText :: string where
  "alwaysText = ''{\"allow\":true,\"persist\":\"always\",\"reasoning\":\"routine\"}''"

definition alwaysClient :: "unit client" where
  "alwaysClient = (\<lambda>w message. (ApiResponse [TextBlock alwaysText], w))"

definition alwaysParse :: "string \<Rightarrow> json option" where
  "alwaysParse s =
     (if s = alwaysText
      then Some (JObject [(''allow'', JBool True), (''persist'', JString ''always''),
                          (''reasoning'', JString ''routine'')])
      else None)"


subsection \<open>Targets on which pattern extraction is stable\<close>

definition noLineTerminator :: "string \<Rightarrow> bool" where
  "noLineTerminator s = list_all (\<lambda>c. \<not> isLineTerminator c) s"

text \<open>\<open>hasPort s\<close>: some colon of \<open>s\<close> is followed by a digit, that is
  \<^verbatim>\<open>/:\d+/\<close> matches somewhere in \<open>s\<close>.\<close>

fun hasPort :: "string \<Rightarrow> bool" where
  "hasPort [] = False"
| "hasPort [c] = False"
| "hasPort (c # d # cs) = ((c = CHR '':'' \<and> isDigit d) \<or> hasPort (d # cs))"

text \<open>The directory names of the seven directory rules, in the order of the rules.\<close>

definition dirNames :: "string list" where
  "dirNames = [''node_modules'', ''dist'', ''build'', ''.next'', ''target'', ''vendor'',
     ''__pycache__'']"


subsection \<open>One full cycle, and example collaborators\<close>

text \<open>The updates of one full Planning/Implementing/Evaluating cycle of iteration \<open>n\<close>, in
  the order in which \<^verbatim>\<open>run\<close> yields them.\<close>

definition cycleUpdates ::
  "int \<Rightarrow> roleResult \<Rightarrow> string \<Rightarrow> ArchitectUpdate option \<Rightarrow> roleResult \<Rightarrow> ArchitectUpdate list" where
  "cycleUpdates n pl impl review ev =
     [PhaseUpdate Planning n] @ thinkingUpdates (thinking pl) @
     [PlanUpdate (content pl) (thinking pl), PhaseUpdate Implementing n,
      ImplementationUpdate impl] @
     (case review of None \<Rightarrow> [] | Some u \<Rightarrow> [u]) @
     [PhaseUpdate Evaluating n] @ thinkingUpdates (thinking ev) @
     [EvaluationUpdate (content ev) (thinking ev)]"

text \<open>The state after a full cycle that started in \<open>st\<close>.\<close>

definition afterCycle ::
  "ArchitectState \<Rightarrow> roleResult \<Rightarrow> string \<Rightarrow> roleResult \<Rightarrow> phase \<Rightarrow> ArchitectState" where
  "afterCycle st pl impl ev ph =
     \<lparr>phase = ph, currentIteration = currentIteration st + 1, plan = Some (content pl),
      implementation = Some impl, evaluation = Some (content ev),
      thinkingContent = Some (thinking pl)\<rparr>"

text \<open>An architect backend that answers an evaluation request (its message starts with
  "Original Task:") with a fixed verdict and any other request with a plan, and an editor
  backend that answers with one file.\<close>

definition scriptedArchitect :: "string \<Rightarrow> unit handler" where
  "scriptedArchitect verdict =
     (\<lambda>w systemPrompt message.
        (Inr (if take 14 message = ''Original Task:''
              then [ReasoningChunk ''comparing with the plan'', TextChunk verdict]
              else [TextChunk ''## Analysis'']),
         w))"

definition scriptedEditor :: "unit handler" where
  "scriptedEditor =
     (\<lambda>w systemPrompt message. (Inr [TextChunk ''<file path=\"src/a.ts\">export {}</file>''], w))"

definition exampleOrchestrator :: "int \<Rightarrow> string \<Rightarrow> unit orchestrator" where
  "exampleOrchestrator budget verdict =
     \<lparr>config = \<lparr>maxIterations = budget, persona = None\<rparr>,
      architectHandler = scriptedArchitect verdict,
      editorHandler = scriptedEditor,
      architectureAnalyzer = None\<rparr>"

definition examplePlan :: roleResult where
  "examplePlan = \<lparr>content = ''## Analysis'', thinking = []\<rparr>"

definition exampleImplementation :: string where
  "exampleImplementation = ''<file path=\"src/a.ts\">export {}</file>''"

definition exampleEvaluation :: "string \<Rightarrow> roleResult" where
  "exampleEvaluation verdict = \<lparr>content = verdict, thinking = ''comparing with the plan''\<rparr>"


section \<open>Properties of the approval oracle\<close>

subsection \<open>Evaluation of the built-in lists on the example targets\<close>

lemma app_ts_not_denied:
  "\<not> list_ex (\<lambda>m. m ''write:/project/src/app.ts'') (map test INSTANT_DENY)"
  by code_simp

lemma app_ts_allowed:
  "list_ex (\<lambda>m. m ''write:/project/src/app.ts'') (map test INSTANT_ALLOW)"
  by code_simp

lemma app_ts_pattern: "generalize ''/project/src/app.ts'' = ''/project/src/*.ts''"
  by code_simp

lemma wallet_ts_pattern: "generalize ''/project/src/wallet.ts'' = ''/project/src/*.ts''"
  by code_simp

lemma wallet_ts_denied:
  "list_ex (\<lambda>m. m ''write:/project/src/wallet.ts'') (map test INSTANT_DENY)"
  by code_simp

lemma env_denied: "list_ex (\<lambda>m. m ''write:/project/src/.env'') (map test INSTANT_DENY)"
  by code_simp

lemma env_allowed: "list_ex (\<lambda>m. m ''write:/project/src/.env'') (map test INSTANT_ALLOW)"
  by code_simp

lemma tmp_x_not_denied: "\<not> list_ex (\<lambda>m. m ''delete:/tmp/x'') (map test INSTANT_DENY)"
  by code_simp

lemma tmp_x_not_allowed: "\<not> list_ex (\<lambda>m. m ''delete:/tmp/x'') (map test INSTANT_ALLOW)"
  by code_simp

lemma tmp_x_pattern: "generalize ''/tmp/x'' = ''/tmp/x''"
  by code_simp

lemma tmp_1_pattern: "generalize ''/tmp/1'' = ''/tmp/*''"
  by code_simp

lemma tmp_2_pattern: "generalize ''/tmp/2'' = ''/tmp/*''"
  by code_simp

lemma tmp_1_not_denied: "\<not> list_ex (\<lambda>m. m ''delete:/tmp/1'') (map test INSTANT_DENY)"
  by code_simp

lemma tmp_1_not_allowed: "\<not> list_ex (\<lambda>m. m ''delete:/tmp/1'') (map test INSTANT_ALLOW)"
  by code_simp

lemma tmp_2_not_denied: "\<not> list_ex (\<lambda>m. m ''delete:/tmp/2'') (map test INSTANT_DENY)"
  by code_simp

lemma tmp_2_not_allowed: "\<not> list_ex (\<lambda>m. m ''delete:/tmp/2'') (map test INSTANT_ALLOW)"
  by code_simp

lemma onceText_clean: "trim (stripFences onceText) = onceText"
  by code_simp

lemma alwaysText_clean: "trim (stripFences alwaysText) = alwaysText"
  by code_simp

lemma normalize_plain [simp]:
  "normalizeSeparators ''/project/src/app.ts'' = ''/project/src/app.ts''"
  "normalizeSeparators ''/project/src/wallet.ts'' = ''/project/src/wallet.ts''"
  "normalizeSeparators ''/project/src/.env'' = ''/project/src/.env''"
  "normalizeSeparators ''/tmp/x'' = ''/tmp/x''"
  "normalizeSeparators ''/tmp/1'' = ''/tmp/1''"
  "normalizeSeparators ''/tmp/2'' = ''/tmp/2''"
  by (simp_all add: normalizeSeparators_def)

subsection \<open>General facts about \<open>decide\<close>\<close>

lemma decide_cached:
  "persistedRules orc (extractPattern request) = Some b \<Longrightarrow>
   decide client JSON_parse orc w request =
     (\<lparr>allow = b, persist = Always, reasoning = ''Cached rule''\<rparr>, orc, w)"
  by (simp add: decide_def)

lemma decide_escalates:
  assumes "persistedRules orc (extractPattern request) = None"
    and "\<not> list_ex (\<lambda>m. m (literal request)) (denyList orc)"
    and "\<not> list_ex (\<lambda>m. m (literal request)) (allowList orc)"
  shows "decide client JSON_parse orc w request =
     askOpus client JSON_parse orc w request (extractPattern request)"
  using assms by (simp add: decide_def Let_def)

lemma parseResponse_no_allow:
  assumes "JSON_parse (trim (stripFences (responseText blocks))) = Some parsed"
    and "\<forall>b. field parsed ''allow'' \<noteq> Some (JBool b)"
  shows "parseResponse JSON_parse blocks = parseFailed"
proof (cases "field parsed ''allow''")
  case None
  with assms(1) show ?thesis by (simp add: parseResponse_def)
next
  case (Some v)
  show ?thesis
  proof (cases v)
    case (JBool b)
    with Some assms(2) show ?thesis by blast
  qed (use assms(1) Some in \<open>simp_all add: parseResponse_def\<close>)
qed

lemma parseResponse_throws:
  "JSON_parse (trim (stripFences (responseText blocks))) = None \<Longrightarrow>
   parseResponse JSON_parse blocks = parseFailed"
  by (simp add: parseResponse_def)

lemma askOpus_keeps:
  assumes "askOpus client JSON_parse orc w request pattern = (d, orc', w')"
    and "persistedRules orc pattern = None"
    and "persistedRules orc p = Some b"
  shows "persistedRules orc' p = Some b"
proof -
  from assms(2,3) have "p \<noteq> pattern" by auto
  with assms(1,3) show ?thesis
    by (auto simp: askOpus_def Let_def split: prod.splits apiResult.splits if_splits)
qed

lemma askOpus_lists:
  assumes "askOpus client JSON_parse orc w request pattern = (d, orc', w')"
  shows "allowList orc' = allowList orc \<and> denyList orc' = denyList orc"
  using assms
  by (auto simp: askOpus_def Let_def split: prod.splits apiResult.splits if_splits)

lemma decide_keeps:
  assumes "decide client JSON_parse orc w request = (d, orc', w')"
    and "persistedRules orc p = Some b"
  shows "persistedRules orc' p = Some b"
proof (cases "persistedRules orc (extractPattern request)")
  case (Some c)
  with assms show ?thesis by (simp add: decide_def)
next
  case None
  with assms(2) have ne: "p \<noteq> extractPattern request" by auto
  show ?thesis
  proof (cases "list_ex (\<lambda>m. m (literal request)) (denyList orc)")
    case True
    with None assms ne show ?thesis by (auto simp: decide_def)
  next
    case deny: False
    show ?thesis
    proof (cases "list_ex (\<lambda>m. m (literal request)) (allowList orc)")
      case True
      with None deny assms ne show ?thesis by (auto simp: decide_def)
    next
      case False
      with None deny assms(1)
      have "askOpus client JSON_parse orc w request (extractPattern request) = (d, orc', w')"
        by (simp add: decide_def)
      from askOpus_keeps [OF this None assms(2)] show ?thesis .
    qed
  qed
qed

lemma decideAll_keeps:
  "decideAll client JSON_parse orc w requests = (ds, orc', w') \<Longrightarrow>
   persistedRules orc p = Some b \<Longrightarrow> persistedRules orc' p = Some b"
proof (induction requests arbitrary: orc w ds)
  case Nil
  then show ?case by simp
next
  case (Cons request requests)
  obtain d o1 w1 where step: "decide client JSON_parse orc w request = (d, o1, w1)"
    by (cases "decide client JSON_parse orc w request") auto
  obtain ds1 where rest: "decideAll client JSON_parse o1 w1 requests = (ds1, orc', w')"
    using Cons.prems(1) step by (auto split: prod.splits)
  from decide_keeps [OF step Cons.prems(2)] have "persistedRules o1 p = Some b" .
  from Cons.IH [OF rest this] show ?case .
qed

subsection \<open>The claims\<close>

text \<open>
  C1, deny precedence: when the pattern of a request is not in the cache and its literal
  \<open>action:target\<close> is matched by some deny matcher and by some allow matcher, \<open>decide\<close>
  denies with scope always and reasoning "Blocked pattern" (and records the denial under
  the pattern, without a call to the adjudicator): the deny list is consulted first.
\<close>

theorem deny_precedence:
  assumes "persistedRules orc (extractPattern request) = None"
    and "\<exists>m \<in> set (denyList orc). m (literal request)"
    and "\<exists>m \<in> set (allowList orc). m (literal request)"
  shows "decide client JSON_parse orc w request =
     (\<lparr>allow = False, persist = Always, reasoning = ''Blocked pattern''\<rparr>,
      orc\<lparr>persistedRules := (persistedRules orc)(extractPattern request \<mapsto> False)\<rparr>, w)"
  using assms by (simp add: decide_def list_ex_iff)

theorem deny_precedence_witness:
  "persistedRules (newApprovalOracle [] []) (extractPattern (writeRequest ''/project/src/.env'')) = None
   \<and> (\<exists>m \<in> set (denyList (newApprovalOracle [] [])). m (literal (writeRequest ''/project/src/.env'')))
   \<and> (\<exists>m \<in> set (allowList (newApprovalOracle [] [])). m (literal (writeRequest ''/project/src/.env'')))
   \<and> allow (fst (decide failingClient (\<lambda>s. None) (newApprovalOracle [] []) ()
                  (writeRequest ''/project/src/.env''))) = False"
proof -
  let ?orc = "newApprovalOracle [] []" and ?r = "writeRequest ''/project/src/.env''"
  have miss: "persistedRules ?orc (extractPattern ?r) = None"
    by (simp add: newApprovalOracle_def)
  have lit: "literal ?r = ''write:/project/src/.env''"
    by (simp add: literal_def writeRequest_def)
  have deny: "\<exists>m \<in> set (denyList ?orc). m (literal ?r)"
    using env_denied by (simp add: newApprovalOracle_def lit list_ex_iff)
  have allow: "\<exists>m \<in> set (allowList ?orc). m (literal ?r)"
    using env_allowed by (simp add: newApprovalOracle_def lit list_ex_iff)
  from deny_precedence [OF miss deny allow, of failingClient "\<lambda>s. None" "()"]
  have "allow (fst (decide failingClient (\<lambda>s. None) ?orc () ?r)) = False" by simp
  with miss deny allow show ?thesis by blast
qed

text \<open>
  C2, fail-open: for a request that reaches the adjudicator (pattern not cached, no deny
  and no allow matcher matches), if the call throws, or \<^verbatim>\<open>JSON.parse\<close> throws on the
  cleaned response text, or the parsed value has no boolean \<^verbatim>\<open>allow\<close>, then \<open>decide\<close>
  returns a decision (no error reaches the caller) that allows once, with a reasoning that
  names the failure, and the oracle, hence its cache, is the one before the call.
\<close>

theorem fail_open:
  assumes "persistedRules orc (extractPattern request) = None"
    and "\<not> (\<exists>m \<in> set (denyList orc). m (literal request))"
    and "\<not> (\<exists>m \<in> set (allowList orc). m (literal request))"
    and "client w (userMessage request (extractPattern request)) = (result, w')"
    and "result = ApiError \<or>
         (\<exists>blocks. result = ApiResponse blocks \<and>
            (case JSON_parse (trim (stripFences (responseText blocks))) of
               None \<Rightarrow> True
             | Some parsed \<Rightarrow> \<forall>b. field parsed ''allow'' \<noteq> Some (JBool b)))"
  shows "\<exists>why \<in> {''API error, allowing once'', ''Parse failed, allowing once''}.
           decide client JSON_parse orc w request =
             (\<lparr>allow = True, persist = Once, reasoning = why\<rparr>, orc, w')"
proof -
  have esc: "decide client JSON_parse orc w request =
      askOpus client JSON_parse orc w request (extractPattern request)"
    using assms(1-3) by (intro decide_escalates) (simp_all add: list_ex_iff)
  from assms(5) show ?thesis
  proof
    assume "result = ApiError"
    with assms(4) esc show ?thesis by (simp add: askOpus_def apiErrorDecision_def)
  next
    assume "\<exists>blocks. result = ApiResponse blocks \<and>
            (case JSON_parse (trim (stripFences (responseText blocks))) of
               None \<Rightarrow> True
             | Some parsed \<Rightarrow> \<forall>b. field parsed ''allow'' \<noteq> Some (JBool b))"
    then obtain blocks where r: "result = ApiResponse blocks"
      and bad: "case JSON_parse (trim (stripFences (responseText blocks))) of
               None \<Rightarrow> True
             | Some parsed \<Rightarrow> \<forall>b. field parsed ''allow'' \<noteq> Some (JBool b)"
      by blast
    from bad have "parseResponse JSON_parse blocks = parseFailed"
      by (cases "JSON_parse (trim (stripFences (responseText blocks)))")
        (simp_all add: parseResponse_throws parseResponse_no_allow)
    with assms(4) esc r show ?thesis by (simp add: askOpus_def parseFailed_def)
  qed
qed

theorem fail_open_witness:
  "persistedRules (newApprovalOracle [] []) (extractPattern (deleteRequest ''/tmp/x'')) = None
   \<and> \<not> (\<exists>m \<in> set (denyList (newApprovalOracle [] [])). m (literal (deleteRequest ''/tmp/x'')))
   \<and> \<not> (\<exists>m \<in> set (allowList (newApprovalOracle [] [])). m (literal (deleteRequest ''/tmp/x'')))
   \<and> failingClient () (userMessage (deleteRequest ''/tmp/x'')
        (extractPattern (deleteRequest ''/tmp/x''))) = (ApiError, ())
   \<and> decide failingClient (\<lambda>s. None) (newApprovalOracle [] []) () (deleteRequest ''/tmp/x'') =
       (\<lparr>allow = True, persist = Once, reasoning = ''API error, allowing once''\<rparr>,
        newApprovalOracle [] [], ())"
proof -
  let ?orc = "newApprovalOracle [] []" and ?r = "deleteRequest ''/tmp/x''"
  have miss: "persistedRules ?orc (extractPattern ?r) = None"
    by (simp add: newApprovalOracle_def)
  have lit: "literal ?r = ''delete:/tmp/x''"
    by (simp add: literal_def deleteRequest_def)
  have deny: "\<not> (\<exists>m \<in> set (denyList ?orc). m (literal ?r))"
    using tmp_x_not_denied by (simp add: newApprovalOracle_def lit list_ex_iff)
  have allow: "\<not> (\<exists>m \<in> set (allowList ?orc). m (literal ?r))"
    using tmp_x_not_allowed by (simp add: newApprovalOracle_def lit list_ex_iff)
  have call: "failingClient () (userMessage ?r (extractPattern ?r)) = (ApiError, ())"
    by (simp add: failingClient_def)
  have "ApiError = ApiError \<or>
         (\<exists>blocks. ApiError = ApiResponse blocks \<and>
            (case (\<lambda>s. None) (trim (stripFences (responseText blocks))) of
               None \<Rightarrow> True
             | Some parsed \<Rightarrow> \<forall>b. field parsed ''allow'' \<noteq> Some (JBool b)))"
    by simp
  from fail_open [where client = failingClient and JSON_parse = "\<lambda>s. None" and w = "()"
      and w' = "()" and result = ApiError, OF miss deny allow call this]
  obtain why where "why \<in> {''API error, allowing once'', ''Parse failed, allowing once''}"
    and d: "decide failingClient (\<lambda>s. None) ?orc () ?r =
             (\<lparr>allow = True, persist = Once, reasoning = why\<rparr>, ?orc, ())"
    by blast
  moreover have "decide failingClient (\<lambda>s. None) ?orc () ?r =
      askOpus failingClient (\<lambda>s. None) ?orc () ?r (extractPattern ?r)"
    using miss deny allow by (intro decide_escalates) (simp_all add: list_ex_iff)
  then have "reasoning (fst (decide failingClient (\<lambda>s. None) ?orc () ?r)) =
      ''API error, allowing once''"
    by (simp add: askOpus_def failingClient_def apiErrorDecision_def)
  ultimately have "decide failingClient (\<lambda>s. None) ?orc () ?r =
       (\<lparr>allow = True, persist = Once, reasoning = ''API error, allowing once''\<rparr>, ?orc, ())"
    by simp
  with miss deny allow call show ?thesis by blast
qed


text \<open>
  C9, scenario A: on a freshly constructed oracle with no custom patterns, a write to
  \<^verbatim>\<open>/project/src/app.ts\<close> is allowed with scope always and reasoning "Safe pattern",
  whatever the adjudicator would answer: the outside world is returned as it was, and
  the decision is cached under \<^verbatim>\<open>write:/project/src/*.ts\<close>.
\<close>

theorem scenario_A:
  "decide client JSON_parse (newApprovalOracle [] []) w
     \<lparr>action = Write, target = ''/project/src/app.ts'', requestContext = c,
      previousDecisions = p\<rparr> =
   (\<lparr>allow = True, persist = Always, reasoning = ''Safe pattern''\<rparr>,
    (newApprovalOracle [] [])\<lparr>persistedRules := [''write:/project/src/*.ts'' \<mapsto> True]\<rparr>,
    w)"
  using app_ts_not_denied app_ts_allowed
  by (simp add: decide_def Let_def newApprovalOracle_def literal_def extractPattern_def
      app_ts_pattern)

lemma decide_always_cached:
  assumes "decide client JSON_parse orc w request = (d, orc', w')"
    and "persist d = Always"
  shows "persistedRules orc' (extractPattern request) = Some (allow d)"
proof (cases "persistedRules orc (extractPattern request)")
  case (Some c)
  with assms show ?thesis by (auto simp: decide_def)
next
  case None
  show ?thesis
  proof (cases "list_ex (\<lambda>m. m (literal request)) (denyList orc)")
    case True
    with None assms show ?thesis by (auto simp: decide_def)
  next
    case deny: False
    show ?thesis
    proof (cases "list_ex (\<lambda>m. m (literal request)) (allowList orc)")
      case True
      with None deny assms show ?thesis by (auto simp: decide_def)
    next
      case False
      from decide_escalates [OF None deny False, of client JSON_parse w] assms(1)
      have "askOpus client JSON_parse orc w request (extractPattern request) = (d, orc', w')"
        by simp
      with assms(2) show ?thesis
        by (auto simp: askOpus_def Let_def apiErrorDecision_def
            split: prod.splits apiResult.splits if_splits)
    qed
  qed
qed

text \<open>
  C10, cache shadowing: once a \<open>decide\<close> call has returned a decision with scope always
  (a fast-path match, an adjudicator answer with scope always, or a cache hit), its
  boolean is in the cache under the request's pattern; after any further \<open>decide\<close> calls,
  a request with the same pattern gets that boolean back with scope always and reasoning
  "Cached rule". The answer is the same for every allow list, deny list and adjudicator,
  and neither the oracle nor the outside world changes: the matchers and the adjudicator
  are not consulted, whatever the literal target of the later request would match.
\<close>

theorem cache_shadowing:
  assumes "decide client JSON_parse orc0 w0 request0 = (d0, orc, w)"
    and "persist d0 = Always"
    and "decideAll client JSON_parse orc w requests = (decisions, orc', w')"
    and "extractPattern request = extractPattern request0"
  shows "decide client' JSON_parse' (orc'\<lparr>allowList := al, denyList := dl\<rparr>) w'' request =
     (\<lparr>allow = allow d0, persist = Always, reasoning = ''Cached rule''\<rparr>,
      orc'\<lparr>allowList := al, denyList := dl\<rparr>, w'')"
proof -
  from decide_always_cached [OF assms(1,2)]
  have "persistedRules orc (extractPattern request0) = Some (allow d0)" .
  from decideAll_keeps [OF assms(3) this] assms(4)
  have "persistedRules (orc'\<lparr>allowList := al, denyList := dl\<rparr>) (extractPattern request) =
      Some (allow d0)"
    by simp
  then show ?thesis by (rule decide_cached)
qed

theorem cache_shadowing_witness:
  "list_ex (\<lambda>m. m (literal (writeRequest ''/project/src/wallet.ts'')))
     (denyList (newApprovalOracle [] []))
   \<and> extractPattern (writeRequest ''/project/src/wallet.ts'') =
       extractPattern (writeRequest ''/project/src/app.ts'')
   \<and> decide failingClient (\<lambda>s. None) (newApprovalOracle [] []) ()
        (writeRequest ''/project/src/app.ts'') =
       (\<lparr>allow = True, persist = Always, reasoning = ''Safe pattern''\<rparr>,
        (newApprovalOracle [] [])\<lparr>persistedRules := [''write:/project/src/*.ts'' \<mapsto> True]\<rparr>,
        ())
   \<and> decide failingClient (\<lambda>s. None)
        ((newApprovalOracle [] [])\<lparr>persistedRules := [''write:/project/src/*.ts'' \<mapsto> True]\<rparr>)
        () (writeRequest ''/project/src/wallet.ts'') =
       (\<lparr>allow = True, persist = Always, reasoning = ''Cached rule''\<rparr>,
        (newApprovalOracle [] [])\<lparr>persistedRules := [''write:/project/src/*.ts'' \<mapsto> True]\<rparr>,
        ())"
proof -
  let ?fresh = "newApprovalOracle [] []"
  let ?cached = "?fresh\<lparr>persistedRules := [''write:/project/src/*.ts'' \<mapsto> True]\<rparr>"
  let ?dec = "\<lparr>allow = True, persist = Always, reasoning = ''Safe pattern''\<rparr>"
  have first: "decide failingClient (\<lambda>s. None) ?fresh () (writeRequest ''/project/src/app.ts'') =
      (?dec, ?cached, ())"
    using app_ts_not_denied app_ts_allowed
    by (simp add: decide_def Let_def newApprovalOracle_def literal_def extractPattern_def
        app_ts_pattern writeRequest_def)
  have always: "persist ?dec = Always"
    by simp
  have none: "decideAll failingClient (\<lambda>s. None) ?cached () [] = ([], ?cached, ())"
    by simp
  have same: "extractPattern (writeRequest ''/project/src/wallet.ts'') =
      extractPattern (writeRequest ''/project/src/app.ts'')"
    by (simp add: extractPattern_def writeRequest_def app_ts_pattern wallet_ts_pattern)
  have denied: "list_ex (\<lambda>m. m (literal (writeRequest ''/project/src/wallet.ts''))) (denyList ?fresh)"
    using wallet_ts_denied by (simp add: newApprovalOracle_def literal_def writeRequest_def)
  from cache_shadowing [OF first always none same, where client' = failingClient
      and JSON_parse' = "\<lambda>s. None" and al = "allowList ?cached" and dl = "denyList ?cached"
      and w'' = "()"]
  have "decide failingClient (\<lambda>s. None) ?cached () (writeRequest ''/project/src/wallet.ts'') =
      (\<lparr>allow = True, persist = Always, reasoning = ''Cached rule''\<rparr>, ?cached, ())"
    by simp
  with denied same first show ?thesis by blast
qed

subsection \<open>Counting the calls to the adjudicator\<close>

lemma askOpus_counting:
  "askOpus (counting client) JSON_parse orc (n, w) request pattern = (d, orc', (n', w')) \<Longrightarrow>
   n' = Suc n"
  by (auto simp: askOpus_def counting_def Let_def split: prod.splits apiResult.splits)

lemma decide_cached_counting:
  assumes "persistedRules orc (extractPattern request) = Some b"
    and "decide (counting client) JSON_parse orc (n, w) request = (d, orc', (n', w'))"
  shows "n' = n"
  using assms by (simp add: decide_def)

lemma decide_counting:
  assumes "decide (counting client) JSON_parse orc (n, w) request = (d, orc', (n', w'))"
  shows "n' \<le> Suc n"
proof (cases "persistedRules orc (extractPattern request)")
  case (Some b)
  from decide_cached_counting [OF Some assms] show ?thesis by simp
next
  case None
  show ?thesis
  proof (cases "list_ex (\<lambda>m. m (literal request)) (denyList orc)")
    case True
    with None assms show ?thesis by (simp add: decide_def)
  next
    case deny: False
    show ?thesis
    proof (cases "list_ex (\<lambda>m. m (literal request)) (allowList orc)")
      case True
      with None deny assms show ?thesis by (simp add: decide_def)
    next
      case False
      from decide_escalates [OF None deny False, of "counting client" JSON_parse "(n, w)"] assms
      have "askOpus (counting client) JSON_parse orc (n, w) request (extractPattern request) =
          (d, orc', (n', w'))"
        by simp
      from askOpus_counting [OF this] show ?thesis by simp
    qed
  qed
qed

text \<open>
  C4, cache idempotence, as the claim states it ("regardless of what persistence scope the
  adjudicator's first answer carried"), fails: \<^verbatim>\<open>/tmp/1\<close> and \<^verbatim>\<open>/tmp/2\<close> generalize
  to the same pattern, the adjudicator answers the first request with scope once, nothing
  is cached, and the second request reaches the adjudicator again.
\<close>

theorem cache_idempotence_counterexample:
  "extractPattern (deleteRequest ''/tmp/1'') = extractPattern (deleteRequest ''/tmp/2'')
   \<and> \<not> adjudicatorCalls onceClient onceParse (newApprovalOracle [] []) ()
          [deleteRequest ''/tmp/1'', deleteRequest ''/tmp/2''] \<le> 1"
proof -
  let ?orc = "newApprovalOracle [] []"
  have same: "extractPattern (deleteRequest ''/tmp/1'') = extractPattern (deleteRequest ''/tmp/2'')"
    by (simp add: extractPattern_def deleteRequest_def tmp_1_pattern tmp_2_pattern)
  have once: "parseResponse onceParse [TextBlock onceText] =
      \<lparr>allow = True, persist = Once, reasoning = ''one-off''\<rparr>"
    by (simp add: parseResponse_def responseText_def onceText_clean onceParse_def)
  have ask: "askOpus (counting onceClient) onceParse ?orc (n, ()) r pat =
      (\<lparr>allow = True, persist = Once, reasoning = ''one-off''\<rparr>, ?orc, (Suc n, ()))" for n r pat
    by (simp add: askOpus_def counting_def onceClient_def once)
  have d1: "decide (counting onceClient) onceParse ?orc (n, ()) (deleteRequest ''/tmp/1'') =
      (\<lparr>allow = True, persist = Once, reasoning = ''one-off''\<rparr>, ?orc, (Suc n, ()))" for n
  proof -
    have "decide (counting onceClient) onceParse ?orc (n, ()) (deleteRequest ''/tmp/1'') =
        askOpus (counting onceClient) onceParse ?orc (n, ()) (deleteRequest ''/tmp/1'')
          (extractPattern (deleteRequest ''/tmp/1''))"
      using tmp_1_not_denied tmp_1_not_allowed
      by (intro decide_escalates)
        (simp_all add: newApprovalOracle_def literal_def deleteRequest_def)
    then show ?thesis by (simp add: ask)
  qed
  have d2: "decide (counting onceClient) onceParse ?orc (n, ()) (deleteRequest ''/tmp/2'') =
      (\<lparr>allow = True, persist = Once, reasoning = ''one-off''\<rparr>, ?orc, (Suc n, ()))" for n
  proof -
    have "decide (counting onceClient) onceParse ?orc (n, ()) (deleteRequest ''/tmp/2'') =
        askOpus (counting onceClient) onceParse ?orc (n, ()) (deleteRequest ''/tmp/2'')
          (extractPattern (deleteRequest ''/tmp/2''))"
      using tmp_2_not_denied tmp_2_not_allowed
      by (intro decide_escalates)
        (simp_all add: newApprovalOracle_def literal_def deleteRequest_def)
    then show ?thesis by (simp add: ask)
  qed
  have "adjudicatorCalls onceClient onceParse ?orc ()
      [deleteRequest ''/tmp/1'', deleteRequest ''/tmp/2''] = 2"
    by (simp add: adjudicatorCalls_def d1 d2)
  with same show ?thesis by simp
qed

lemma decide_not_always:
  assumes "decide (counting client) JSON_parse orc (n, w) request = (d, orc', (n', w'))"
    and "persist d \<noteq> Always"
  shows "n' = Suc n \<and> orc' = orc \<and> persistedRules orc (extractPattern request) = None"
proof (cases "persistedRules orc (extractPattern request)")
  case (Some b)
  with assms show ?thesis by (auto simp: decide_def)
next
  case None
  show ?thesis
  proof (cases "list_ex (\<lambda>m. m (literal request)) (denyList orc)")
    case True
    with None assms show ?thesis by (auto simp: decide_def)
  next
    case deny: False
    show ?thesis
    proof (cases "list_ex (\<lambda>m. m (literal request)) (allowList orc)")
      case True
      with None deny assms show ?thesis by (auto simp: decide_def)
    next
      case False
      from decide_escalates [OF None deny False, of "counting client" JSON_parse "(n, w)"]
        assms(1)
      have ask: "askOpus (counting client) JSON_parse orc (n, w) request
          (extractPattern request) = (d, orc', (n', w'))"
        by simp
      from askOpus_counting [OF ask] have "n' = Suc n" .
      moreover from ask assms(2) have "orc' = orc"
        by (auto simp: askOpus_def Let_def split: prod.splits apiResult.splits if_splits)
      ultimately show ?thesis using None by simp
    qed
  qed
qed

text \<open>
  C4 as amended: take two requests with the same pattern, decided one after the other;
  \<open>n1\<close> and \<open>n2\<close> count the adjudicator calls after the first and after the second
  \<open>decide\<close>. If the first decision carries scope always (a cache hit, a fast-path match,
  or an adjudicator answer with scope always), the second request is answered from the
  cache: it makes no adjudicator call, so the two calls make at most one between them, it
  returns the cached verdict of the first with reasoning \<^verbatim>\<open>Cached rule\<close>, and it changes
  neither the oracle nor the world. If the first decision carries scope once or session,
  the adjudicator was called for it (exactly one call), the oracle is left as it was, and
  the pattern is still not in the cache when the second request arrives.
\<close>

theorem cache_idempotence_always:
  assumes "extractPattern request1 = extractPattern request2"
    and "decide (counting client) JSON_parse orc (0, w) request1 = (d1, orc1, (n1, w1))"
    and "decide (counting client) JSON_parse orc1 (n1, w1) request2 = (d2, orc2, (n2, w2))"
  shows "(persist d1 = Always \<longrightarrow>
            n2 = n1 \<and> n2 \<le> 1
            \<and> d2 = \<lparr>allow = allow d1, persist = Always, reasoning = ''Cached rule''\<rparr>
            \<and> orc2 = orc1 \<and> w2 = w1)
       \<and> (persist d1 = Once \<or> persist d1 = Session \<longrightarrow>
            n1 = 1 \<and> orc1 = orc \<and> persistedRules orc1 (extractPattern request2) = None)"
proof (intro conjI impI)
  assume always: "persist d1 = Always"
  from decide_always_cached [OF assms(2) always] assms(1)
  have cached: "persistedRules orc1 (extractPattern request2) = Some (allow d1)" by simp
  from decide_cached_counting [OF cached assms(3)] show "n2 = n1" .
  moreover from decide_counting [OF assms(2)] have "n1 \<le> 1" by simp
  ultimately show "n2 \<le> 1" by simp
  from decide_cached [OF cached, of "counting client" JSON_parse "(n1, w1)"] assms(3)
  show "d2 = \<lparr>allow = allow d1, persist = Always, reasoning = ''Cached rule''\<rparr>"
    and "orc2 = orc1" and "w2 = w1"
    by simp_all
next
  assume "persist d1 = Once \<or> persist d1 = Session"
  then have "persist d1 \<noteq> Always" by auto
  from decide_not_always [OF assms(2) this] assms(1)
  show "n1 = 1" and "orc1 = orc" and "persistedRules orc1 (extractPattern request2) = None"
    by simp_all
qed

theorem cache_idempotence_always_witness:
  "extractPattern (deleteRequest ''/tmp/1'') = extractPattern (deleteRequest ''/tmp/2'')
   \<and> decide (counting alwaysClient) alwaysParse (newApprovalOracle [] []) (0, ())
        (deleteRequest ''/tmp/1'') =
       (\<lparr>allow = True, persist = Always, reasoning = ''routine''\<rparr>,
        (newApprovalOracle [] [])\<lparr>persistedRules := [''delete:/tmp/*'' \<mapsto> True]\<rparr>,
        (1, ()))
   \<and> decide (counting alwaysClient) alwaysParse
        ((newApprovalOracle [] [])\<lparr>persistedRules := [''delete:/tmp/*'' \<mapsto> True]\<rparr>)
        (1, ()) (deleteRequest ''/tmp/2'') =
       (\<lparr>allow = True, persist = Always, reasoning = ''Cached rule''\<rparr>,
        (newApprovalOracle [] [])\<lparr>persistedRules := [''delete:/tmp/*'' \<mapsto> True]\<rparr>,
        (1, ()))
   \<and> decide (counting onceClient) onceParse (newApprovalOracle [] []) (0, ())
        (deleteRequest ''/tmp/1'') =
       (\<lparr>allow = True, persist = Once, reasoning = ''one-off''\<rparr>, newApprovalOracle [] [],
        (1, ()))
   \<and> persistedRules (newApprovalOracle [] []) (extractPattern (deleteRequest ''/tmp/2'')) =
       None"
proof -
  let ?fresh = "newApprovalOracle [] []"
  let ?cached = "?fresh\<lparr>persistedRules := [''delete:/tmp/*'' \<mapsto> True]\<rparr>"
  let ?dec = "\<lparr>allow = True, persist = Always, reasoning = ''routine''\<rparr>"
  let ?once = "\<lparr>allow = True, persist = Once, reasoning = ''one-off''\<rparr>"
  let ?second = "decide (counting alwaysClient) alwaysParse ?cached (1, ())
      (deleteRequest ''/tmp/2'')"
  let ?single = "decide (counting onceClient) onceParse ?fresh (0, ())
      (deleteRequest ''/tmp/1'')"
  have same: "extractPattern (deleteRequest ''/tmp/1'') =
      extractPattern (deleteRequest ''/tmp/2'')"
    by (simp add: extractPattern_def deleteRequest_def tmp_1_pattern tmp_2_pattern)
  have pat: "extractPattern (deleteRequest ''/tmp/1'') = ''delete:/tmp/*''"
    by (simp add: extractPattern_def deleteRequest_def tmp_1_pattern)
  have escalates: "decide client JSON_parse ?fresh x (deleteRequest ''/tmp/1'') =
      askOpus client JSON_parse ?fresh x (deleteRequest ''/tmp/1'')
        (extractPattern (deleteRequest ''/tmp/1''))" for client JSON_parse and x :: "nat \<times> unit"
    using tmp_1_not_denied tmp_1_not_allowed
    by (intro decide_escalates)
      (simp_all add: newApprovalOracle_def literal_def deleteRequest_def)
  have answer: "parseResponse alwaysParse [TextBlock alwaysText] = ?dec"
    by (simp add: parseResponse_def responseText_def alwaysText_clean alwaysParse_def)
  have first: "decide (counting alwaysClient) alwaysParse ?fresh (0, ())
      (deleteRequest ''/tmp/1'') = (?dec, ?cached, (1, ()))"
    unfolding escalates pat
    by (simp add: askOpus_def counting_def alwaysClient_def answer newApprovalOracle_def)
  obtain d2 orc2 n2 where second: "?second = (d2, orc2, (n2, ()))"
    by (cases ?second) auto
  from cache_idempotence_always [OF same first second]
  have "n2 = 1" and "d2 = \<lparr>allow = True, persist = Always, reasoning = ''Cached rule''\<rparr>"
    and "orc2 = ?cached"
    by simp_all
  with second have hit: "?second =
      (\<lparr>allow = True, persist = Always, reasoning = ''Cached rule''\<rparr>, ?cached, (1, ()))"
    by simp
  have reply: "parseResponse onceParse [TextBlock onceText] = ?once"
    by (simp add: parseResponse_def responseText_def onceText_clean onceParse_def)
  have verdict: "fst ?single = ?once"
    unfolding escalates
    by (simp add: askOpus_def counting_def onceClient_def reply)
  obtain orc1 n1 where single: "?single = (?once, orc1, (n1, ()))"
    using verdict by (cases ?single) auto
  obtain d3 orc3 n3 where third:
    "decide (counting onceClient) onceParse orc1 (n1, ()) (deleteRequest ''/tmp/2'') =
       (d3, orc3, (n3, ()))"
    by (cases "decide (counting onceClient) onceParse orc1 (n1, ()) (deleteRequest ''/tmp/2'')")
      auto
  have "persist ?once = Once \<or> persist ?once = Session" by simp
  with cache_idempotence_always [OF same single third]
  have "n1 = 1 \<and> orc1 = ?fresh
      \<and> persistedRules orc1 (extractPattern (deleteRequest ''/tmp/2'')) = None"
    by blast
  with single have "?single = (?once, ?fresh, (1, ()))"
    and "persistedRules ?fresh (extractPattern (deleteRequest ''/tmp/2'')) = None"
    by auto
  with same first hit show ?thesis by blast
qed


section \<open>Properties of the orchestrator\<close>

subsection \<open>One pass of the loop body\<close>

lemma iteration_cycle:
  assumes "architectPlan orch w task ctx = (Inr pl, w1)"
    and "editorImplement orch w1 (content pl) ctx = (Inr impl, w2)"
    and "reviewArchitecture orch w2 impl = (Inr review, w3)"
    and "architectEvaluate orch w3 task (content pl) impl ctx = (Inr ev, w4)"
  shows "iteration orch st w task ctx =
     (if isComplete (content ev)
      then (cycleUpdates (currentIteration st + 1) pl impl review ev @
              [CompleteUpdate (currentIteration st + 1)],
            afterCycle st pl impl ev Complete, w4, Approved)
      else (cycleUpdates (currentIteration st + 1) pl impl review ev,
            afterCycle st pl impl ev Evaluating, w4,
            Continue (updateContext ctx impl (content ev))))"
  using assms by (simp add: iteration_def Let_def cycleUpdates_def afterCycle_def)

lemma iteration_continue_inv:
  assumes "iteration orch st w task ctx = (us, st', w', Continue ctx')"
  shows "\<exists>pl impl review ev w1 w2 w3.
           architectPlan orch w task ctx = (Inr pl, w1) \<and>
           editorImplement orch w1 (content pl) ctx = (Inr impl, w2) \<and>
           reviewArchitecture orch w2 impl = (Inr review, w3) \<and>
           architectEvaluate orch w3 task (content pl) impl ctx = (Inr ev, w') \<and>
           \<not> isComplete (content ev)"
proof -
  obtain r1 w1 where p: "architectPlan orch w task ctx = (r1, w1)"
    by (cases "architectPlan orch w task ctx") auto
  show ?thesis
  proof (cases r1)
    case (Inl e)
    with p assms show ?thesis by (simp add: iteration_def Let_def)
  next
    case (Inr pl)
    obtain r2 w2 where e: "editorImplement orch w1 (content pl) ctx = (r2, w2)"
      by (cases "editorImplement orch w1 (content pl) ctx") auto
    show ?thesis
    proof (cases r2)
      case (Inl e2)
      with p Inr e assms show ?thesis by (simp add: iteration_def Let_def)
    next
      case impl: (Inr impl)
      obtain r3 w3 where r: "reviewArchitecture orch w2 impl = (r3, w3)"
        by (cases "reviewArchitecture orch w2 impl") auto
      show ?thesis
      proof (cases r3)
        case (Inl e3)
        with p Inr e impl r assms show ?thesis by (simp add: iteration_def Let_def)
      next
        case review: (Inr review)
        obtain r4 w4 where v: "architectEvaluate orch w3 task (content pl) impl ctx = (r4, w4)"
          by (cases "architectEvaluate orch w3 task (content pl) impl ctx") auto
        show ?thesis
        proof (cases r4)
          case (Inl e4)
          with p Inr e impl r review v assms show ?thesis by (simp add: iteration_def Let_def)
        next
          case ev: (Inr ev)
          from p Inr e impl r review v ev
          have all: "architectPlan orch w task ctx = (Inr pl, w1)"
            "editorImplement orch w1 (content pl) ctx = (Inr impl, w2)"
            "reviewArchitecture orch w2 impl = (Inr review, w3)"
            "architectEvaluate orch w3 task (content pl) impl ctx = (Inr ev, w4)"
            by simp_all
          from iteration_cycle [OF all, of st] assms
          have "\<not> isComplete (content ev)" "w4 = w'"
            by (auto split: if_splits)
          with all show ?thesis by blast
        qed
      qed
    qed
  qed
qed

lemma runLoop_exhausted:
  "\<not> currentIteration st < maxIterations (config orch) \<Longrightarrow>
   runLoop orch st w task ctx =
     ([MaxIterationsUpdate (currentIteration st)], st\<lparr>phase := Failed\<rparr>, w, None)"
  by (subst runLoop.simps) simp

lemma runLoop_approved:
  assumes "currentIteration st < maxIterations (config orch)"
    and "iteration orch st w task ctx = (us, st', w', Approved)"
  shows "runLoop orch st w task ctx = (us, st', w', None)"
  using assms by (subst runLoop.simps) simp

lemma runLoop_continue:
  assumes "currentIteration st < maxIterations (config orch)"
    and "iteration orch st w task ctx = (us, st', w', Continue ctx')"
  shows "runLoop orch st w task ctx =
     (case runLoop orch st' w' task ctx' of (us2, st2, w2, r) \<Rightarrow> (us @ us2, st2, w2, r))"
  using assms by (subst runLoop.simps) simp

lemma prefix_updateContext: "prefix ctx (updateContext ctx impl ev)"
  by (simp add: updateContext_def)

lemma sublist_impl_updateContext: "sublist impl (updateContext ctx impl ev)"
  unfolding updateContext_def sublist_def by (metis append.assoc)

lemma sublist_eval_updateContext: "sublist ev (updateContext ctx impl ev)"
  unfolding updateContext_def sublist_def by (metis append.assoc)

lemma example_plan:
  "architectPlan (exampleOrchestrator budget verdict) () task ctx = (Inr examplePlan, ())"
  by (simp add: architectPlan_def exampleOrchestrator_def collectStreamResponse_def
      scriptedArchitect_def injectFromConfig_def extractThinkingAndContent_def examplePlan_def)

lemma example_implementation:
  "editorImplement (exampleOrchestrator budget verdict) () pl ctx =
     (Inr exampleImplementation, ())"
  by (simp add: editorImplement_def exampleOrchestrator_def collectStreamResponse_def
      scriptedEditor_def injectFromConfig_def extractContent_def exampleImplementation_def)

lemma example_review:
  "reviewArchitecture (exampleOrchestrator budget verdict) () impl = (Inr None, ())"
  by (simp add: reviewArchitecture_def exampleOrchestrator_def)

lemma example_evaluation:
  "architectEvaluate (exampleOrchestrator budget verdict) () task pl impl ctx =
     (Inr (exampleEvaluation verdict), ())"
  by (simp add: architectEvaluate_def exampleOrchestrator_def collectStreamResponse_def
      scriptedArchitect_def injectFromConfig_def extractThinkingAndContent_def
      exampleEvaluation_def)

lemma example_injectTypes: "injectTypes (exampleOrchestrator budget verdict) ctx = ctx"
  by (simp add: injectTypes_def exampleOrchestrator_def)

lemma approved_isComplete: "isComplete '' approved: as planned''"
  by code_simp

lemma revision_not_isComplete: "\<not> isComplete ''REVISION NEEDED: add tests''"
  by code_simp


lemma iteration_starts:
  "\<exists>us st' w' r. iteration orch st w task ctx =
     (PhaseUpdate Planning (currentIteration st + 1) # us, st', w', r)"
proof -
  obtain r1 w1 where p: "architectPlan orch w task ctx = (r1, w1)"
    by (cases "architectPlan orch w task ctx") auto
  show ?thesis
  proof (cases r1)
    case (Inl e)
    with p show ?thesis by (simp add: iteration_def Let_def)
  next
    case (Inr pl)
    obtain r2 w2 where e: "editorImplement orch w1 (content pl) ctx = (r2, w2)"
      by (cases "editorImplement orch w1 (content pl) ctx") auto
    show ?thesis
    proof (cases r2)
      case (Inl e2)
      with p Inr e show ?thesis by (simp add: iteration_def Let_def)
    next
      case impl: (Inr impl)
      obtain r3 w3 where r: "reviewArchitecture orch w2 impl = (r3, w3)"
        by (cases "reviewArchitecture orch w2 impl") auto
      show ?thesis
      proof (cases r3)
        case (Inl e3)
        with p Inr e impl r show ?thesis by (simp add: iteration_def Let_def)
      next
        case review: (Inr review)
        obtain r4 w4 where v: "architectEvaluate orch w3 task (content pl) impl ctx = (r4, w4)"
          by (cases "architectEvaluate orch w3 task (content pl) impl ctx") auto
        show ?thesis
        proof (cases r4)
          case (Inl e4)
          with p Inr e impl r review v show ?thesis by (simp add: iteration_def Let_def)
        next
          case ev: (Inr ev)
          with p Inr e impl r review v show ?thesis by (simp add: iteration_def Let_def)
        qed
      qed
    qed
  qed
qed


lemma iteration_continue:
  assumes "architectPlan orch w task ctx = (Inr pl, w1)"
    and "editorImplement orch w1 (content pl) ctx = (Inr impl, w2)"
    and "reviewArchitecture orch w2 impl = (Inr review, w3)"
    and "architectEvaluate orch w3 task (content pl) impl ctx = (Inr ev, w4)"
    and "\<not> startsWith (toUpperCase (trim (content ev))) ''APPROVED''"
  shows "iteration orch st w task ctx =
     (cycleUpdates (currentIteration st + 1) pl impl review ev,
      afterCycle st pl impl ev Evaluating, w4,
      Continue (updateContext ctx impl (content ev)))"
  using iteration_cycle [OF assms(1-4), of st] assms(5) by (simp add: isComplete_def)

subsection \<open>The claims\<close>

text \<open>
  C5, iteration-budget clamping, fails as stated: the engine does not clamp. With
  \<open>maxIterations = 0\<close> the loop body never runs, whatever the reviewer would say: \<open>run\<close>
  yields the max-iterations update alone, with \<open>iterations = 0\<close>, and ends in \<open>Failed\<close>.
\<close>

theorem budget_clamping_counterexample:
  "run (exampleOrchestrator 0 '' approved: as planned'') initialState () ''task'' ''context'' =
     ([MaxIterationsUpdate 0], initialState\<lparr>phase := Failed\<rparr>, (), None)"
  by (simp add: run_def runLoop_exhausted exampleOrchestrator_def initialState_def)

text \<open>
  C5 as amended: \<open>run\<close> trusts the configured budget. From a state with iteration count 0,
  a budget of zero or less gives no cycle at all (only the max-iterations update with
  \<open>iterations = 0\<close>, final phase \<open>Failed\<close>, no error), and a budget of at least one makes
  \<open>run\<close> start the first cycle (its first update is the Planning phase of iteration 1).
  The range 1..10 is enforced where the budget is typed in, by the change handler of the
  settings panel.
\<close>

theorem budget_trusted:
  assumes "currentIteration st = 0"
  shows "(maxIterations (config orch) \<le> 0 \<longrightarrow>
            run orch st w task ctx = ([MaxIterationsUpdate 0], st\<lparr>phase := Failed\<rparr>, w, None))
       \<and> (1 \<le> maxIterations (config orch) \<longrightarrow>
            (\<exists>us st' w' r. run orch st w task ctx = (PhaseUpdate Planning 1 # us, st', w', r)))
       \<and> 1 \<le> onMaxIterationsChange parsed \<and> onMaxIterationsChange parsed \<le> 10"
proof (intro conjI impI)
  assume "maxIterations (config orch) \<le> 0"
  with assms show "run orch st w task ctx =
      ([MaxIterationsUpdate 0], st\<lparr>phase := Failed\<rparr>, w, None)"
    by (simp add: run_def runLoop_exhausted)
next
  assume "1 \<le> maxIterations (config orch)"
  with assms have lt: "currentIteration st < maxIterations (config orch)" by simp
  let ?ctx = "injectTypes orch ctx"
  from iteration_starts [of orch st w task ?ctx] assms
  obtain us st' w' r where it: "iteration orch st w task ?ctx =
      (PhaseUpdate Planning 1 # us, st', w', r)"
    by auto
  show "\<exists>us st' w' r. run orch st w task ctx = (PhaseUpdate Planning 1 # us, st', w', r)"
  proof (cases r)
    case (Threw e)
    with lt it show ?thesis by (subst run_def, subst runLoop.simps) simp
  next
    case Approved
    with lt it show ?thesis by (subst run_def, subst runLoop.simps) simp
  next
    case (Continue ctx')
    obtain us2 st2 w2 r2 where "runLoop orch st' w' task ctx' = (us2, st2, w2, r2)"
      by (cases "runLoop orch st' w' task ctx'") auto
    with lt it Continue show ?thesis by (subst run_def, subst runLoop.simps) simp
  qed
next
  show "1 \<le> onMaxIterationsChange parsed" "onMaxIterationsChange parsed \<le> 10"
    by (simp_all add: onMaxIterationsChange_def Let_def)
qed

theorem budget_trusted_witness:
  "currentIteration initialState = 0
   \<and> run (exampleOrchestrator (- 1) ''REVISION NEEDED: add tests'') initialState () ''task''
        ''context'' = ([MaxIterationsUpdate 0], initialState\<lparr>phase := Failed\<rparr>, (), None)
   \<and> (\<exists>us st' w' r. run (exampleOrchestrator 2 ''REVISION NEEDED: add tests'') initialState ()
        ''task'' ''context'' = (PhaseUpdate Planning 1 # us, st', w', r))
   \<and> onMaxIterationsChange (Some (- 3)) = 1 \<and> onMaxIterationsChange (Some 0) = 5
   \<and> onMaxIterationsChange None = 5 \<and> onMaxIterationsChange (Some 42) = 10"
proof -
  have zero: "currentIteration initialState = 0"
    by (simp add: initialState_def)
  have neg: "maxIterations (config (exampleOrchestrator (- 1) ''REVISION NEEDED: add tests'')) \<le> 0"
    by (simp add: exampleOrchestrator_def)
  have pos: "1 \<le> maxIterations (config (exampleOrchestrator 2 ''REVISION NEEDED: add tests''))"
    by (simp add: exampleOrchestrator_def)
  from budget_trusted [OF zero, of "exampleOrchestrator (- 1) ''REVISION NEEDED: add tests''"
      "()" "''task''" "''context''"] neg
  have a: "run (exampleOrchestrator (- 1) ''REVISION NEEDED: add tests'') initialState () ''task''
        ''context'' = ([MaxIterationsUpdate 0], initialState\<lparr>phase := Failed\<rparr>, (), None)"
    by blast
  from budget_trusted [OF zero, of "exampleOrchestrator 2 ''REVISION NEEDED: add tests''"
      "()" "''task''" "''context''"] pos
  have b: "\<exists>us st' w' r. run (exampleOrchestrator 2 ''REVISION NEEDED: add tests'') initialState ()
        ''task'' ''context'' = (PhaseUpdate Planning 1 # us, st', w', r)"
    by blast
  have c: "onMaxIterationsChange (Some (- 3)) = 1" "onMaxIterationsChange (Some 0) = 5"
    "onMaxIterationsChange None = 5" "onMaxIterationsChange (Some 42) = 10"
    by (simp_all add: onMaxIterationsChange_def)
  from zero a b c show ?thesis by blast
qed

text \<open>
  C6, convergence on the first pass: from a state with iteration count 0 and a budget of
  at least one, if the three role calls and the review of iteration 1 return and the
  evaluation text, trimmed and upper-cased, starts with \<^verbatim>\<open>APPROVED\<close>, then \<open>run\<close> yields
  the updates of exactly one full cycle, then the completion update with \<open>iterations = 1\<close>,
  and nothing else; it returns without error in phase \<open>Complete\<close> with iteration count 1.
\<close>

theorem convergence_first_pass:
  assumes "currentIteration st = 0"
    and "1 \<le> maxIterations (config orch)"
    and "architectPlan orch w task (injectTypes orch ctx) = (Inr pl, w1)"
    and "editorImplement orch w1 (content pl) (injectTypes orch ctx) = (Inr impl, w2)"
    and "reviewArchitecture orch w2 impl = (Inr review, w3)"
    and "architectEvaluate orch w3 task (content pl) impl (injectTypes orch ctx) = (Inr ev, w4)"
    and "startsWith (toUpperCase (trim (content ev))) ''APPROVED''"
  shows "run orch st w task ctx =
           (cycleUpdates 1 pl impl review ev @ [CompleteUpdate 1],
            afterCycle st pl impl ev Complete, w4, None)
         \<and> phase (afterCycle st pl impl ev Complete) = Complete
         \<and> currentIteration (afterCycle st pl impl ev Complete) = 1"
proof -
  from assms(1,2) have lt: "currentIteration st < maxIterations (config orch)" by simp
  from assms(7) have "isComplete (content ev)" by (simp add: isComplete_def)
  with iteration_cycle [OF assms(3-6), of st] assms(1)
  have "iteration orch st w task (injectTypes orch ctx) =
      (cycleUpdates 1 pl impl review ev @ [CompleteUpdate 1],
       afterCycle st pl impl ev Complete, w4, Approved)"
    by simp
  from runLoop_approved [OF lt this]
  have "run orch st w task ctx =
      (cycleUpdates 1 pl impl review ev @ [CompleteUpdate 1],
       afterCycle st pl impl ev Complete, w4, None)"
    by (simp add: run_def)
  with assms(1) show ?thesis by (simp add: afterCycle_def)
qed

theorem convergence_first_pass_witness:
  "run (exampleOrchestrator 5 '' approved: as planned'') initialState () ''task'' ''context'' =
     ([PhaseUpdate Planning 1, PlanUpdate ''## Analysis'' [], PhaseUpdate Implementing 1,
       ImplementationUpdate ''<file path=\"src/a.ts\">export {}</file>'',
       PhaseUpdate Evaluating 1, ThinkingUpdate ''comparing with the plan'',
       EvaluationUpdate '' approved: as planned'' ''comparing with the plan'',
       CompleteUpdate 1],
      \<lparr>phase = Complete, currentIteration = 1, plan = Some ''## Analysis'',
       implementation = Some ''<file path=\"src/a.ts\">export {}</file>'',
       evaluation = Some '' approved: as planned'', thinkingContent = Some []\<rparr>,
      (), None)"
proof -
  let ?orch = "exampleOrchestrator 5 '' approved: as planned''"
  have zero: "currentIteration initialState = 0"
    by (simp add: initialState_def)
  have budget: "1 \<le> maxIterations (config ?orch)"
    by (simp add: exampleOrchestrator_def)
  have approved: "startsWith (toUpperCase (trim (content (exampleEvaluation '' approved: as planned''))))
      ''APPROVED''"
    using approved_isComplete by (simp add: isComplete_def exampleEvaluation_def)
  have p: "architectPlan ?orch () ''task'' (injectTypes ?orch ''context'') = (Inr examplePlan, ())"
    by (rule example_plan)
  have i: "editorImplement ?orch () (content examplePlan) (injectTypes ?orch ''context'') =
      (Inr exampleImplementation, ())"
    by (rule example_implementation)
  have r: "reviewArchitecture ?orch () exampleImplementation = (Inr None, ())"
    by (rule example_review)
  have e: "architectEvaluate ?orch () ''task'' (content examplePlan) exampleImplementation
      (injectTypes ?orch ''context'') = (Inr (exampleEvaluation '' approved: as planned''), ())"
    by (rule example_evaluation)
  from convergence_first_pass [OF zero budget p i r e approved]
  show ?thesis
    by (simp add: cycleUpdates_def afterCycle_def thinkingUpdates_def examplePlan_def
        exampleImplementation_def exampleEvaluation_def initialState_def)
qed


text \<open>
  C7, budget exhaustion: from a state with iteration count 0 and \<open>maxIterations = 3\<close>, if
  the role calls and the reviews of the three passes return (each pass working on the
  context that the pass before it left) and none of the three evaluation texts, trimmed
  and upper-cased, starts with \<^verbatim>\<open>APPROVED\<close>, then \<open>run\<close> yields the updates of exactly
  three full cycles, numbered 1, 2 and 3 and carrying the plans, implementations, reviews
  and evaluations that the calls returned, then the max-iterations update with
  \<open>iterations = 3\<close>, and nothing else; it returns without error in phase \<open>Failed\<close> with
  iteration count 3.
\<close>

theorem budget_exhaustion:
  fixes orch :: "'w orchestrator"
  assumes "currentIteration st = 0"
    and "maxIterations (config orch) = 3"
    and "architectPlan orch w task (injectTypes orch ctx) = (Inr p1, wp1)"
    and "editorImplement orch wp1 (content p1) (injectTypes orch ctx) = (Inr i1, wi1)"
    and "reviewArchitecture orch wi1 i1 = (Inr r1, wr1)"
    and "architectEvaluate orch wr1 task (content p1) i1 (injectTypes orch ctx) =
           (Inr e1, we1)"
    and "\<not> startsWith (toUpperCase (trim (content e1))) ''APPROVED''"
    and "architectPlan orch we1 task
           (updateContext (injectTypes orch ctx) i1 (content e1)) = (Inr p2, wp2)"
    and "editorImplement orch wp2 (content p2)
           (updateContext (injectTypes orch ctx) i1 (content e1)) = (Inr i2, wi2)"
    and "reviewArchitecture orch wi2 i2 = (Inr r2, wr2)"
    and "architectEvaluate orch wr2 task (content p2) i2
           (updateContext (injectTypes orch ctx) i1 (content e1)) = (Inr e2, we2)"
    and "\<not> startsWith (toUpperCase (trim (content e2))) ''APPROVED''"
    and "architectPlan orch we2 task
           (updateContext (updateContext (injectTypes orch ctx) i1 (content e1))
              i2 (content e2)) = (Inr p3, wp3)"
    and "editorImplement orch wp3 (content p3)
           (updateContext (updateContext (injectTypes orch ctx) i1 (content e1))
              i2 (content e2)) = (Inr i3, wi3)"
    and "reviewArchitecture orch wi3 i3 = (Inr r3, wr3)"
    and "architectEvaluate orch wr3 task (content p3) i3
           (updateContext (updateContext (injectTypes orch ctx) i1 (content e1))
              i2 (content e2)) = (Inr e3, we3)"
    and "\<not> startsWith (toUpperCase (trim (content e3))) ''APPROVED''"
  shows "run orch st w task ctx =
           (cycleUpdates 1 p1 i1 r1 e1 @ cycleUpdates 2 p2 i2 r2 e2 @
            cycleUpdates 3 p3 i3 r3 e3 @ [MaxIterationsUpdate 3],
            afterCycle (afterCycle (afterCycle st p1 i1 e1 Evaluating) p2 i2 e2 Evaluating)
              p3 i3 e3 Failed,
            we3, None)
         \<and> phase (afterCycle (afterCycle (afterCycle st p1 i1 e1 Evaluating) p2 i2 e2 Evaluating)
              p3 i3 e3 Failed) = Failed
         \<and> currentIteration
              (afterCycle (afterCycle (afterCycle st p1 i1 e1 Evaluating) p2 i2 e2 Evaluating)
                 p3 i3 e3 Failed) = 3"
proof -
  let ?ca = "injectTypes orch ctx"
  let ?cb = "updateContext ?ca i1 (content e1)"
  let ?cc = "updateContext ?cb i2 (content e2)"
  let ?sa = "afterCycle st p1 i1 e1 Evaluating"
  let ?sb = "afterCycle ?sa p2 i2 e2 Evaluating"
  let ?sc = "afterCycle ?sb p3 i3 e3 Evaluating"
  have cur: "currentIteration ?sa = 1" "currentIteration ?sb = 2" "currentIteration ?sc = 3"
    using assms(1) by (simp_all add: afterCycle_def)
  have ita: "iteration orch st w task ?ca =
      (cycleUpdates 1 p1 i1 r1 e1, ?sa, we1, Continue ?cb)"
    using iteration_continue [OF assms(3-7), of st] assms(1) by simp
  have itb: "iteration orch ?sa we1 task ?cb =
      (cycleUpdates 2 p2 i2 r2 e2, ?sb, we2, Continue ?cc)"
    using iteration_continue [OF assms(8-12), of ?sa] cur(1) by simp
  have itc: "iteration orch ?sb we2 task ?cc =
      (cycleUpdates 3 p3 i3 r3 e3, ?sc, we3, Continue (updateContext ?cc i3 (content e3)))"
    using iteration_continue [OF assms(13-17), of ?sb] cur(2) by simp
  have failed: "?sc\<lparr>phase := Failed\<rparr> = afterCycle ?sb p3 i3 e3 Failed"
    by (simp add: afterCycle_def)
  have l4: "runLoop orch ?sc we3 task (updateContext ?cc i3 (content e3)) =
      ([MaxIterationsUpdate 3], afterCycle ?sb p3 i3 e3 Failed, we3, None)"
    using runLoop_exhausted [of ?sc orch we3 task "updateContext ?cc i3 (content e3)"]
      cur(3) assms(2) failed
    by simp
  have l3: "runLoop orch ?sb we2 task ?cc =
      (cycleUpdates 3 p3 i3 r3 e3 @ [MaxIterationsUpdate 3],
       afterCycle ?sb p3 i3 e3 Failed, we3, None)"
    using runLoop_continue [OF _ itc] cur(2) assms(2) l4 by simp
  have l2: "runLoop orch ?sa we1 task ?cb =
      (cycleUpdates 2 p2 i2 r2 e2 @ cycleUpdates 3 p3 i3 r3 e3 @ [MaxIterationsUpdate 3],
       afterCycle ?sb p3 i3 e3 Failed, we3, None)"
    using runLoop_continue [OF _ itb] cur(1) assms(2) l3 by simp
  have l1: "runLoop orch st w task ?ca =
      (cycleUpdates 1 p1 i1 r1 e1 @ cycleUpdates 2 p2 i2 r2 e2 @
       cycleUpdates 3 p3 i3 r3 e3 @ [MaxIterationsUpdate 3],
       afterCycle ?sb p3 i3 e3 Failed, we3, None)"
    using runLoop_continue [OF _ ita] assms(1,2) l2 by simp
  have "phase (afterCycle ?sb p3 i3 e3 Failed) = Failed"
    "currentIteration (afterCycle ?sb p3 i3 e3 Failed) = 3"
    using cur(2) by (simp_all add: afterCycle_def)
  with l1 show ?thesis by (simp add: run_def)
qed

theorem budget_exhaustion_witness:
  "run (exampleOrchestrator 3 ''REVISION NEEDED: add tests'') initialState () ''task''
     ''context'' =
     ([PhaseUpdate Planning 1, PlanUpdate ''## Analysis'' [], PhaseUpdate Implementing 1,
       ImplementationUpdate ''<file path=\"src/a.ts\">export {}</file>'',
       PhaseUpdate Evaluating 1, ThinkingUpdate ''comparing with the plan'',
       EvaluationUpdate ''REVISION NEEDED: add tests'' ''comparing with the plan'',
       PhaseUpdate Planning 2, PlanUpdate ''## Analysis'' [], PhaseUpdate Implementing 2,
       ImplementationUpdate ''<file path=\"src/a.ts\">export {}</file>'',
       PhaseUpdate Evaluating 2, ThinkingUpdate ''comparing with the plan'',
       EvaluationUpdate ''REVISION NEEDED: add tests'' ''comparing with the plan'',
       PhaseUpdate Planning 3, PlanUpdate ''## Analysis'' [], PhaseUpdate Implementing 3,
       ImplementationUpdate ''<file path=\"src/a.ts\">export {}</file>'',
       PhaseUpdate Evaluating 3, ThinkingUpdate ''comparing with the plan'',
       EvaluationUpdate ''REVISION NEEDED: add tests'' ''comparing with the plan'',
       MaxIterationsUpdate 3],
      \<lparr>phase = Failed, currentIteration = 3, plan = Some ''## Analysis'',
       implementation = Some ''<file path=\"src/a.ts\">export {}</file>'',
       evaluation = Some ''REVISION NEEDED: add tests'', thinkingContent = Some []\<rparr>,
      (), None)"
proof -
  let ?orch = "exampleOrchestrator 3 ''REVISION NEEDED: add tests''"
  let ?ev = "exampleEvaluation ''REVISION NEEDED: add tests''"
  have zero: "currentIteration initialState = 0"
    by (simp add: initialState_def)
  have budget: "maxIterations (config ?orch) = 3"
    by (simp add: exampleOrchestrator_def)
  have no: "\<not> startsWith (toUpperCase (trim (content ?ev))) ''APPROVED''"
    using revision_not_isComplete by (simp add: isComplete_def exampleEvaluation_def)
  have p: "architectPlan ?orch () ''task'' c = (Inr examplePlan, ())" for c
    by (rule example_plan)
  have i: "editorImplement ?orch () (content examplePlan) c = (Inr exampleImplementation, ())"
    for c
    by (rule example_implementation)
  have r: "reviewArchitecture ?orch () exampleImplementation = (Inr None, ())"
    by (rule example_review)
  have e: "architectEvaluate ?orch () ''task'' (content examplePlan) exampleImplementation c =
      (Inr ?ev, ())" for c
    by (rule example_evaluation)
  from budget_exhaustion [OF zero budget p i r e no p i r e no p i r e no, of "''context''"]
  show ?thesis
    by (simp add: cycleUpdates_def afterCycle_def thinkingUpdates_def examplePlan_def
        exampleImplementation_def exampleEvaluation_def initialState_def)
qed

text \<open>
  C8, context accumulation: when iteration N (the pass that starts in state \<open>st\<close> with
  context \<open>ctx\<close>) does not converge, the loop goes on with the context
  \<open>updateContext ctx impl ev\<close>, where \<open>impl\<close> and \<open>ev\<close> are the implementation and the
  evaluation text of iteration N (the ones stored in the state and yielded as updates):
  the old context is a prefix of the new one, and both texts occur in it verbatim.
  Iteration N+1 is the loop run on that context.
\<close>

theorem context_accumulation:
  assumes "currentIteration st < maxIterations (config orch)"
    and "iteration orch st w task ctx = (us, st', w', Continue ctx')"
  shows "\<exists>impl ev.
           implementation st' = Some impl \<and> evaluation st' = Some ev
           \<and> ImplementationUpdate impl \<in> set us \<and> (\<exists>t. EvaluationUpdate ev t \<in> set us)
           \<and> ctx' = updateContext ctx impl ev
           \<and> prefix ctx ctx' \<and> sublist impl ctx' \<and> sublist ev ctx'
           \<and> currentIteration st' = currentIteration st + 1
           \<and> runLoop orch st w task ctx =
               (case runLoop orch st' w' task ctx' of
                  (us2, st2, w2, r) \<Rightarrow> (us @ us2, st2, w2, r))"
proof -
  from iteration_continue_inv [OF assms(2)]
  obtain pl impl review ev w1 w2 w3
    where calls: "architectPlan orch w task ctx = (Inr pl, w1)"
      "editorImplement orch w1 (content pl) ctx = (Inr impl, w2)"
      "reviewArchitecture orch w2 impl = (Inr review, w3)"
      "architectEvaluate orch w3 task (content pl) impl ctx = (Inr ev, w')"
    and no: "\<not> isComplete (content ev)"
    by blast
  from iteration_cycle [OF calls, of st] no assms(2)
  have us: "us = cycleUpdates (currentIteration st + 1) pl impl review ev"
    and st': "st' = afterCycle st pl impl ev Evaluating"
    and ctx': "ctx' = updateContext ctx impl (content ev)"
    by simp_all
  have "implementation st' = Some impl" "evaluation st' = Some (content ev)"
    "currentIteration st' = currentIteration st + 1"
    by (simp_all add: st' afterCycle_def)
  moreover have "ImplementationUpdate impl \<in> set us"
    "EvaluationUpdate (content ev) (thinking ev) \<in> set us"
    by (simp_all add: us cycleUpdates_def)
  moreover have "prefix ctx ctx'" "sublist impl ctx'" "sublist (content ev) ctx'"
    unfolding ctx'
    by (rule prefix_updateContext sublist_impl_updateContext sublist_eval_updateContext)+
  moreover note ctx' runLoop_continue [OF assms]
  ultimately show ?thesis by blast
qed

theorem context_accumulation_witness:
  "\<exists>us st' ctx'.
     iteration (exampleOrchestrator 3 ''REVISION NEEDED: add tests'') initialState () ''task''
       ''context'' = (us, st', (), Continue ctx')
     \<and> implementation st' = Some exampleImplementation
     \<and> evaluation st' = Some ''REVISION NEEDED: add tests''
     \<and> ctx' = updateContext ''context'' exampleImplementation ''REVISION NEEDED: add tests''
     \<and> prefix ''context'' ctx' \<and> sublist exampleImplementation ctx'
     \<and> sublist ''REVISION NEEDED: add tests'' ctx'"
proof -
  let ?orch = "exampleOrchestrator 3 ''REVISION NEEDED: add tests''"
  let ?ev = "exampleEvaluation ''REVISION NEEDED: add tests''"
  let ?st = "afterCycle initialState examplePlan exampleImplementation ?ev Evaluating"
  let ?ctx = "updateContext ''context'' exampleImplementation ''REVISION NEEDED: add tests''"
  have lt: "currentIteration initialState < maxIterations (config ?orch)"
    by (simp add: initialState_def exampleOrchestrator_def)
  have no: "\<not> isComplete (content ?ev)"
    using revision_not_isComplete by (simp add: exampleEvaluation_def)
  have p: "architectPlan ?orch () ''task'' ''context'' = (Inr examplePlan, ())"
    by (rule example_plan)
  have i: "editorImplement ?orch () (content examplePlan) ''context'' =
      (Inr exampleImplementation, ())"
    by (rule example_implementation)
  have r: "reviewArchitecture ?orch () exampleImplementation = (Inr None, ())"
    by (rule example_review)
  have e: "architectEvaluate ?orch () ''task'' (content examplePlan) exampleImplementation
      ''context'' = (Inr ?ev, ())"
    by (rule example_evaluation)
  from iteration_cycle [OF p i r e, of initialState] no
  have it: "iteration ?orch initialState () ''task'' ''context'' =
      (cycleUpdates (currentIteration initialState + 1) examplePlan exampleImplementation None ?ev,
       ?st, (), Continue ?ctx)"
    by (simp add: exampleEvaluation_def)
  from context_accumulation [OF lt it]
  obtain impl ev where "implementation ?st = Some impl" "evaluation ?st = Some ev"
    "?ctx = updateContext ''context'' impl ev"
    "prefix ''context'' ?ctx" "sublist impl ?ctx" "sublist ev ?ctx"
    by blast
  moreover have "implementation ?st = Some exampleImplementation"
    "evaluation ?st = Some ''REVISION NEEDED: add tests''"
    by (simp_all add: afterCycle_def exampleEvaluation_def)
  ultimately have "prefix ''context'' ?ctx" "sublist exampleImplementation ?ctx"
    "sublist ''REVISION NEEDED: add tests'' ?ctx"
    by simp_all
  with it \<open>implementation ?st = Some exampleImplementation\<close>
    \<open>evaluation ?st = Some ''REVISION NEEDED: add tests''\<close>
  show ?thesis by blast
qed


section \<open>Stability of pattern extraction\<close>

subsection \<open>Characters of the results\<close>

lemma set_collapseDir: "set (collapseDir d s) \<subseteq> insert (CHR ''*'') (set s)"
proof (induction s)
  case Nil
  then show ?case by simp
next
  case (Cons c cs)
  show ?case
  proof (cases "take (length d + 2) (c # cs) = ''/'' @ d @ ''/''")
    case True
    then have "set (''/'' @ d @ ''/'') \<subseteq> set (c # cs)"
      by (metis set_take_subset)
    moreover have "set (dropWhile (\<lambda>x. \<not> isLineTerminator x) (drop (length d + 2) (c # cs)))
        \<subseteq> set (c # cs)"
      by (meson set_dropWhileD set_drop_subset subsetI subsetD)
    ultimately show ?thesis using True by auto
  next
    case False
    with Cons show ?thesis by auto
  qed
qed

lemma set_collapsePort: "set (collapsePort s) \<subseteq> insert (CHR ''*'') (set s)"
proof (induction s rule: collapsePort.induct)
  case (3 c d cs)
  have "set (dropWhile isDigit cs) \<subseteq> set cs"
    by (meson set_dropWhileD subsetI)
  with 3 show ?case by auto
qed simp_all

lemma set_collapseNumbers: "set (collapseNumbers s) \<subseteq> insert (CHR ''*'') (set s)"
proof (induction s rule: collapseNumbers.induct)
  case (3 c d cs)
  have "set (dropWhile isDigit cs) \<subseteq> set cs"
    by (meson set_dropWhileD subsetI)
  with 3 show ?case by auto
qed simp_all

lemma set_lastSegment: "set (lastSegment s) \<subseteq> set s"
  unfolding lastSegment_def by (metis set_rev set_takeWhileD subsetI)

lemma set_upToLastSlash: "set (upToLastSlash s) \<subseteq> set s"
  unfolding upToLastSlash_def by (metis set_rev set_dropWhileD subsetI)

lemma set_collapseFile: "set (collapseFile s) \<subseteq> {CHR ''*'', CHR ''.''} \<union> set s"
proof -
  have "set (extensionOf (lastSegment s)) \<subseteq> set s"
    unfolding extensionOf_def
    using set_lastSegment [of s] by (metis set_rev set_takeWhileD subsetD subsetI)
  with set_upToLastSlash [of s] show ?thesis
    by (auto simp: collapseFile_def)
qed

lemma set_normalizeSeparators:
  "set (normalizeSeparators s) \<subseteq> insert (CHR ''/'') (set s - {CHR 0x5C})"
  by (auto simp: normalizeSeparators_def)

lemma normalizeSeparators_id: "CHR 0x5C \<notin> set s \<Longrightarrow> normalizeSeparators s = s"
  unfolding normalizeSeparators_def by (induction s) auto

subsection \<open>The two numeric rules\<close>

lemma collapsePort_id: "\<not> hasPort s \<Longrightarrow> collapsePort s = s"
  by (induction s rule: collapsePort.induct) auto

lemma dropWhile_isDigit_hd:
  "dropWhile isDigit cs = x # xs \<Longrightarrow> \<not> isDigit x"
  by (metis hd_dropWhile list.sel(1) list.distinct(1))

lemma collapseNumbers_not_digit:
  "collapseNumbers s = x # xs \<Longrightarrow> s = y # ys \<Longrightarrow> \<not> isDigit y \<Longrightarrow> \<not> isDigit x"
  by (cases ys) (auto split: if_splits)

lemma collapseNumbers_idem: "collapseNumbers (collapseNumbers s) = collapseNumbers s"
proof (induction s rule: collapseNumbers.induct)
  case (3 c d cs)
  show ?case
  proof (cases "c = CHR ''/'' \<and> isDigit d")
    case True
    let ?t = "collapseNumbers (dropWhile isDigit cs)"
    have star: "\<not> isDigit (CHR ''*'')" by (simp add: isDigit_def)
    from True 3 have "collapseNumbers (c # d # cs) = ''/*'' @ ?t" "collapseNumbers ?t = ?t"
      by simp_all
    moreover have "collapseNumbers (''/*'' @ ?t) = ''/*'' @ collapseNumbers ?t"
    proof (cases ?t)
      case Nil
      then show ?thesis using star by simp
    next
      case (Cons x xs)
      then show ?thesis using star by simp
    qed
    ultimately show ?thesis by simp
  next
    case False
    with 3 have ih: "collapseNumbers (collapseNumbers (d # cs)) = collapseNumbers (d # cs)"
      by simp
    from False have eq: "collapseNumbers (c # d # cs) = c # collapseNumbers (d # cs)" by auto
    show ?thesis
    proof (cases "collapseNumbers (d # cs)")
      case Nil
      with eq show ?thesis by simp
    next
      case (Cons x xs)
      have "\<not> (c = CHR ''/'' \<and> isDigit x)"
      proof
        assume cx: "c = CHR ''/'' \<and> isDigit x"
        with False have "\<not> isDigit d" by simp
        from collapseNumbers_not_digit [OF Cons refl this] cx show False by simp
      qed
      with eq Cons ih show ?thesis by auto
    qed
  qed
qed simp_all


subsection \<open>The directory rules on targets without line terminators\<close>

text \<open>On the code units of the model, \<open>isLineTerminator\<close> is the ECMAScript class of line
  terminators: a code unit below 256 is one of LF, CR, U+2028, U+2029 exactly when it is
  LF or CR.\<close>

lemma isLineTerminator_codes:
  "isLineTerminator c \<longleftrightarrow> (of_char c :: nat) \<in> set lineTerminatorCodes"
proof -
  have "(of_char c :: nat) < 256" by simp
  then have small: "(of_char c :: nat) \<noteq> 0x2028" "(of_char c :: nat) \<noteq> 0x2029"
    by linarith+
  have lf: "c = CHR 0x0A \<longleftrightarrow> (of_char c :: nat) = 0x0A"
    using of_char_eq_iff [of c "CHR 0x0A", where ?'a = nat] by simp
  have cr: "c = CHR 0x0D \<longleftrightarrow> (of_char c :: nat) = 0x0D"
    using of_char_eq_iff [of c "CHR 0x0D", where ?'a = nat] by simp
  from small lf cr show ?thesis
    by (auto simp: isLineTerminator_def lineTerminatorCodes_def)
qed

lemma noLineTerminator_Cons:
  "noLineTerminator (c # cs) \<longleftrightarrow> \<not> isLineTerminator c \<and> noLineTerminator cs"
  by (simp add: noLineTerminator_def)

lemma noLineTerminator_subset:
  "noLineTerminator s \<Longrightarrow> set t \<subseteq> {CHR ''*'', CHR ''.'', CHR ''/''} \<union> set s \<Longrightarrow> noLineTerminator t"
  by (auto simp: noLineTerminator_def list_all_iff isLineTerminator_def)

lemma collapseDir_nomatch:
  "take (length d + 2) (c # cs) \<noteq> ''/'' @ d @ ''/'' \<Longrightarrow>
   collapseDir d (c # cs) = c # collapseDir d cs"
  by (simp only: collapseDir.simps if_False)

lemma collapseDir_match:
  assumes "take (length d + 2) s = ''/'' @ d @ ''/''" and "noLineTerminator s"
  shows "collapseDir d s = ''/'' @ d @ ''/*''"
proof -
  from assms(1) obtain c cs where s: "s = c # cs" by (cases s) auto
  have "\<forall>x \<in> set (drop (length d + 2) s). \<not> isLineTerminator x"
    using assms(2) by (auto simp: noLineTerminator_def list_all_iff dest: in_set_dropD)
  then have "dropWhile (\<lambda>x. \<not> isLineTerminator x) (drop (length d + 2) s) = []"
    by simp
  with assms(1) s show ?thesis by simp
qed

lemma collapseDir_shape:
  "noLineTerminator s \<Longrightarrow>
   collapseDir d s = s \<or> (\<exists>a. collapseDir d s = a @ ''/'' @ d @ ''/*'')"
proof (induction s)
  case Nil
  then show ?case by simp
next
  case (Cons c cs)
  show ?case
  proof (cases "take (length d + 2) (c # cs) = ''/'' @ d @ ''/''")
    case True
    from collapseDir_match [OF True Cons.prems] show ?thesis by (metis append_Nil)
  next
    case False
    from Cons have "collapseDir d cs = cs \<or> (\<exists>a. collapseDir d cs = a @ ''/'' @ d @ ''/*'')"
      by (simp add: noLineTerminator_Cons)
    then show ?thesis
    proof
      assume "collapseDir d cs = cs"
      with collapseDir_nomatch [OF False] show ?thesis by simp
    next
      assume "\<exists>a. collapseDir d cs = a @ ''/'' @ d @ ''/*''"
      then obtain a where "collapseDir d cs = a @ ''/'' @ d @ ''/*''" ..
      with collapseDir_nomatch [OF False]
      have "collapseDir d (c # cs) = (c # a) @ ''/'' @ d @ ''/*''" by simp
      then show ?thesis by blast
    qed
  qed
qed

text \<open>A window \<open>/k/\<close> at the head of a string, for a name \<open>k\<close> without slash, is
  determined by the first segment of what follows the first character.\<close>

lemma window_first_segment:
  assumes "CHR ''/'' \<notin> set k"
  shows "take (length k + 2) (c # r) = ''/'' @ k @ ''/'' \<longleftrightarrow>
         c = CHR ''/'' \<and> takeWhile (\<lambda>x. x \<noteq> CHR ''/'') r = k \<and> CHR ''/'' \<in> set r"
proof -
  have "take (length k + 1) r = k @ ''/'' \<longleftrightarrow>
        takeWhile (\<lambda>x. x \<noteq> CHR ''/'') r = k \<and> CHR ''/'' \<in> set r"
  proof
    assume t: "take (length k + 1) r = k @ ''/''"
    then have "r = (k @ ''/'') @ drop (length k + 1) r"
      by (metis append_take_drop_id)
    then obtain rest where r: "r = k @ CHR ''/'' # rest" by auto
    from assms have "\<And>x. x \<in> set k \<Longrightarrow> x \<noteq> CHR ''/''" by auto
    then have "takeWhile (\<lambda>x. x \<noteq> CHR ''/'') (k @ CHR ''/'' # rest) = k"
      by (simp add: takeWhile_append2)
    with r show "takeWhile (\<lambda>x. x \<noteq> CHR ''/'') r = k \<and> CHR ''/'' \<in> set r"
      by simp
  next
    assume a: "takeWhile (\<lambda>x. x \<noteq> CHR ''/'') r = k \<and> CHR ''/'' \<in> set r"
    then have ne: "dropWhile (\<lambda>x. x \<noteq> CHR ''/'') r \<noteq> []" by auto
    then have "hd (dropWhile (\<lambda>x. x \<noteq> CHR ''/'') r) = CHR ''/''"
      using hd_dropWhile [of "\<lambda>x. x \<noteq> CHR ''/''" r] by simp
    with ne obtain rest where "dropWhile (\<lambda>x. x \<noteq> CHR ''/'') r = CHR ''/'' # rest"
      by (cases "dropWhile (\<lambda>x. x \<noteq> CHR ''/'') r") auto
    with a have "r = k @ CHR ''/'' # rest"
      by (metis takeWhile_dropWhile_id)
    then show "take (length k + 1) r = k @ ''/''" by simp
  qed
  then show ?thesis by auto
qed

lemma collapseDir_first_segment:
  "takeWhile (\<lambda>x. x \<noteq> CHR ''/'') (collapseDir j s) = takeWhile (\<lambda>x. x \<noteq> CHR ''/'') s \<and>
   (CHR ''/'' \<in> set (collapseDir j s) \<longleftrightarrow> CHR ''/'' \<in> set s)"
proof (induction s)
  case Nil
  then show ?case by simp
next
  case (Cons c cs)
  show ?case
  proof (cases "take (length j + 2) (c # cs) = ''/'' @ j @ ''/''")
    case True
    then have "c = CHR ''/''" by simp
    moreover from True have "hd (collapseDir j (c # cs)) = CHR ''/''"
      "collapseDir j (c # cs) \<noteq> []"
      by (simp_all only: collapseDir.simps if_True) simp_all
    ultimately show ?thesis
      by (cases "collapseDir j (c # cs)") auto
  next
    case False
    from collapseDir_nomatch [OF False] Cons show ?thesis by auto
  qed
qed

lemma collapseDir_window:
  assumes "CHR ''/'' \<notin> set k"
  shows "take (length k + 2) (c # collapseDir j cs) = ''/'' @ k @ ''/'' \<longleftrightarrow>
         take (length k + 2) (c # cs) = ''/'' @ k @ ''/''"
  using collapseDir_first_segment [of j cs]
  by (simp only: window_first_segment [OF assms])

lemma collapseDir_idem:
  assumes "CHR ''/'' \<notin> set d"
  shows "noLineTerminator s \<Longrightarrow> collapseDir d (collapseDir d s) = collapseDir d s"
proof (induction s)
  case Nil
  then show ?case by simp
next
  case (Cons c cs)
  show ?case
  proof (cases "take (length d + 2) (c # cs) = ''/'' @ d @ ''/''")
    case True
    have nl: "noLineTerminator (''/'' @ d @ ''/*'')"
    proof (rule noLineTerminator_subset [OF Cons.prems])
      from True have "set (''/'' @ d @ ''/'') \<subseteq> set (c # cs)" by (metis set_take_subset)
      then show "set (''/'' @ d @ ''/*'') \<subseteq> {CHR ''*'', CHR ''.'', CHR ''/''} \<union> set (c # cs)"
        by auto
    qed
    have "take (length d + 2) (''/'' @ d @ ''/*'') = ''/'' @ d @ ''/''" by simp
    from collapseDir_match [OF this nl] collapseDir_match [OF True Cons.prems]
    show ?thesis by simp
  next
    case False
    then have eq: "collapseDir d (c # cs) = c # collapseDir d cs"
      by (rule collapseDir_nomatch)
    from False collapseDir_window [OF assms, of c d cs]
    have "take (length d + 2) (c # collapseDir d cs) \<noteq> ''/'' @ d @ ''/''" by blast
    then have "collapseDir d (c # collapseDir d cs) = c # collapseDir d (collapseDir d cs)"
      by (rule collapseDir_nomatch)
    with eq Cons show ?thesis by (simp add: noLineTerminator_Cons)
  qed
qed

lemma collapseDir_fix_tail:
  assumes "collapseDir k (x # xs) = x # xs" and "x \<noteq> CHR ''/''"
  shows "collapseDir k xs = xs"
proof -
  from assms(2) have "take (length k + 2) (x # xs) \<noteq> ''/'' @ k @ ''/''" by auto
  from collapseDir_nomatch [OF this] assms(1) show ?thesis by simp
qed

lemma collapseDir_fix_dropWhile:
  assumes "\<And>x. P x \<Longrightarrow> x \<noteq> CHR ''/''"
  shows "collapseDir k xs = xs \<Longrightarrow> collapseDir k (dropWhile P xs) = dropWhile P xs"
proof (induction xs)
  case Nil
  then show ?case by simp
next
  case (Cons x xs)
  show ?case
  proof (cases "P x")
    case True
    with assms have "x \<noteq> CHR ''/''" by simp
    from collapseDir_fix_tail [OF Cons.prems this] Cons.IH True show ?thesis by simp
  next
    case False
    with Cons.prems show ?thesis by simp
  qed
qed

lemma collapseDir_fix_dir:
  assumes "CHR ''/'' \<notin> set k"
    and "collapseDir k (''/'' @ j @ ''/*'') = ''/'' @ j @ ''/*''"
    and "collapseDir j (''/'' @ k @ ''/*'') = ''/'' @ k @ ''/*''"
  shows "noLineTerminator s \<Longrightarrow> collapseDir k s = s \<Longrightarrow>
         collapseDir k (collapseDir j s) = collapseDir j s"
proof (induction s)
  case Nil
  then show ?case by simp
next
  case (Cons c cs)
  show ?case
  proof (cases "take (length j + 2) (c # cs) = ''/'' @ j @ ''/''")
    case True
    from collapseDir_match [OF True Cons.prems(1)] assms(2) show ?thesis by simp
  next
    case nj: False
    then have eq: "collapseDir j (c # cs) = c # collapseDir j cs"
      by (rule collapseDir_nomatch)
    show ?thesis
    proof (cases "take (length k + 2) (c # cs) = ''/'' @ k @ ''/''")
      case True
      from collapseDir_match [OF True Cons.prems(1)] Cons.prems(2)
      have "c # cs = ''/'' @ k @ ''/*''" by (rule box_equals) (rule refl)+
      with assms(3) Cons.prems(2) show ?thesis by (simp only:)
    next
      case nk: False
      from collapseDir_nomatch [OF nk] Cons.prems(2) have "collapseDir k cs = cs" by simp
      with Cons have ih: "collapseDir k (collapseDir j cs) = collapseDir j cs"
        by (simp add: noLineTerminator_Cons)
      from nk collapseDir_window [OF assms(1), of c j cs]
      have "take (length k + 2) (c # collapseDir j cs) \<noteq> ''/'' @ k @ ''/''" by blast
      then have "collapseDir k (c # collapseDir j cs) = c # collapseDir k (collapseDir j cs)"
        by (rule collapseDir_nomatch)
      with eq ih show ?thesis by simp
    qed
  qed
qed


lemma collapsePort_window:
  "CHR '':'' \<notin> set w \<Longrightarrow> take (length w) (collapsePort s) = w \<longleftrightarrow> take (length w) s = w"
proof (induction s arbitrary: w rule: collapsePort.induct)
  case 1
  then show ?case by simp
next
  case (2 c)
  then show ?case by simp
next
  case (3 c d cs)
  show ?case
  proof (cases w)
    case Nil
    then show ?thesis by simp
  next
    case (Cons x w')
    with 3(2) have x: "x \<noteq> CHR '':''" and w': "CHR '':'' \<notin> set w'" by auto
    show ?thesis
    proof (cases "c = CHR '':'' \<and> isDigit d")
      case True
      with Cons x show ?thesis by auto
    next
      case False
      with 3(1) [OF False w'] Cons show ?thesis by auto
    qed
  qed
qed

lemma collapseDir_fix_port:
  assumes "CHR '':'' \<notin> set k"
    and "collapsePort (''/'' @ k @ ''/*'') = ''/'' @ k @ ''/*''"
  shows "noLineTerminator s \<Longrightarrow> collapseDir k s = s \<Longrightarrow>
         collapseDir k (collapsePort s) = collapsePort s"
proof (induction s rule: collapsePort.induct)
  case 1
  then show ?case by simp
next
  case (2 c)
  then show ?case by simp
next
  case (3 c d cs)
  show ?case
  proof (cases "c = CHR '':'' \<and> isDigit d")
    case True
    let ?t = "dropWhile isDigit cs"
    from True have cd: "c \<noteq> CHR ''/''" "d \<noteq> CHR ''/''" by (auto simp: isDigit_def)
    from collapseDir_fix_tail [OF 3(3) cd(1)] have "collapseDir k (d # cs) = d # cs" .
    from collapseDir_fix_tail [OF this cd(2)] have "collapseDir k cs = cs" .
    then have t: "collapseDir k ?t = ?t"
      by (rule collapseDir_fix_dropWhile [rotated]) (auto simp: isDigit_def)
    have "collapseDir k (CHR '':'' # CHR ''*'' # ?t) = CHR '':'' # collapseDir k (CHR ''*'' # ?t)"
      by (rule collapseDir_nomatch) auto
    also have "collapseDir k (CHR ''*'' # ?t) = CHR ''*'' # collapseDir k ?t"
      by (rule collapseDir_nomatch) auto
    finally show ?thesis using True t by simp
  next
    case False
    then have eq: "collapsePort (c # d # cs) = c # collapsePort (d # cs)" by auto
    show ?thesis
    proof (cases "take (length k + 2) (c # d # cs) = ''/'' @ k @ ''/''")
      case True
      from collapseDir_match [OF True 3(2)] 3(3)
      have "c # d # cs = ''/'' @ k @ ''/*''" by (rule box_equals) (rule refl)+
      with assms(2) 3(3) show ?thesis by (simp only:)
    next
      case nk: False
      from collapseDir_nomatch [OF nk] 3(3) have fixd: "collapseDir k (d # cs) = d # cs" by simp
      from 3(2) have "noLineTerminator (d # cs)" by (simp add: noLineTerminator_Cons)
      from 3(1) [OF False this fixd]
      have ih: "collapseDir k (collapsePort (d # cs)) = collapsePort (d # cs)" .
      have "CHR '':'' \<notin> set (k @ ''/'')" using assms(1) by simp
      from collapsePort_window [OF this, of "d # cs"] nk
      have "take (length k + 2) (c # collapsePort (d # cs)) \<noteq> ''/'' @ k @ ''/''" by auto
      then have "collapseDir k (c # collapsePort (d # cs)) =
          c # collapseDir k (collapsePort (d # cs))"
        by (rule collapseDir_nomatch)
      with eq ih show ?thesis by simp
    qed
  qed
qed

lemma collapseNumbers_first_segment:
  "takeWhile (\<lambda>x. x \<noteq> CHR ''/'') (collapseNumbers s) = takeWhile (\<lambda>x. x \<noteq> CHR ''/'') s \<and>
   (CHR ''/'' \<in> set (collapseNumbers s) \<longleftrightarrow> CHR ''/'' \<in> set s)"
  by (induction s rule: collapseNumbers.induct) auto

lemma collapseNumbers_window:
  assumes "CHR ''/'' \<notin> set k"
  shows "take (length k + 2) (c # collapseNumbers r) = ''/'' @ k @ ''/'' \<longleftrightarrow>
         take (length k + 2) (c # r) = ''/'' @ k @ ''/''"
  using collapseNumbers_first_segment [of r]
  by (simp only: window_first_segment [OF assms])

lemma collapseDir_fix_numbers:
  assumes "CHR ''/'' \<notin> set k"
    and "k \<noteq> []" and "\<not> isDigit (hd k)" and "hd k \<noteq> CHR ''*''"
    and "collapseNumbers (''/'' @ k @ ''/*'') = ''/'' @ k @ ''/*''"
  shows "noLineTerminator s \<Longrightarrow> collapseDir k s = s \<Longrightarrow>
         collapseDir k (collapseNumbers s) = collapseNumbers s"
proof (induction s rule: collapseNumbers.induct)
  case 1
  then show ?case by simp
next
  case (2 c)
  then show ?case by simp
next
  case (3 c d cs)
  from assms(2) obtain k0 ks where k: "k = k0 # ks" by (cases k) auto
  show ?case
  proof (cases "c = CHR ''/'' \<and> isDigit d")
    case True
    let ?t = "dropWhile isDigit cs"
    from True assms(3) k have "take (length k + 2) (c # d # cs) \<noteq> ''/'' @ k @ ''/''" by auto
    from collapseDir_nomatch [OF this] 3(4) have "collapseDir k (d # cs) = d # cs" by simp
    moreover from True have "d \<noteq> CHR ''/''" by (auto simp: isDigit_def)
    ultimately have "collapseDir k cs = cs" by (rule collapseDir_fix_tail)
    then have t: "collapseDir k ?t = ?t"
      by (rule collapseDir_fix_dropWhile [rotated]) (auto simp: isDigit_def)
    have "set ?t \<subseteq> set cs" by (meson set_dropWhileD subsetI)
    with 3(3) have "noLineTerminator ?t"
      by (auto simp: noLineTerminator_def list_all_iff)
    from 3(1) [OF True this t]
    have ih: "collapseDir k (collapseNumbers ?t) = collapseNumbers ?t" .
    from assms(4) k have "take (length k + 2) (CHR ''/'' # CHR ''*'' # collapseNumbers ?t)
        \<noteq> ''/'' @ k @ ''/''"
      by auto
    then have "collapseDir k (CHR ''/'' # CHR ''*'' # collapseNumbers ?t) =
        CHR ''/'' # collapseDir k (CHR ''*'' # collapseNumbers ?t)"
      by (rule collapseDir_nomatch)
    also have "collapseDir k (CHR ''*'' # collapseNumbers ?t) =
        CHR ''*'' # collapseDir k (collapseNumbers ?t)"
      by (rule collapseDir_nomatch) auto
    finally show ?thesis using True ih by simp
  next
    case False
    then have eq: "collapseNumbers (c # d # cs) = c # collapseNumbers (d # cs)" by auto
    show ?thesis
    proof (cases "take (length k + 2) (c # d # cs) = ''/'' @ k @ ''/''")
      case True
      from collapseDir_match [OF True 3(3)] 3(4)
      have "c # d # cs = ''/'' @ k @ ''/*''" by (rule box_equals) (rule refl)+
      with assms(5) 3(4) show ?thesis by (simp only:)
    next
      case nk: False
      from collapseDir_nomatch [OF nk] 3(4) have fixd: "collapseDir k (d # cs) = d # cs" by simp
      from 3(3) have "noLineTerminator (d # cs)" by (simp add: noLineTerminator_Cons)
      from 3(2) [OF False this fixd]
      have ih: "collapseDir k (collapseNumbers (d # cs)) = collapseNumbers (d # cs)" .
      from nk collapseNumbers_window [OF assms(1), of c "d # cs"]
      have "take (length k + 2) (c # collapseNumbers (d # cs)) \<noteq> ''/'' @ k @ ''/''" by blast
      then have "collapseDir k (c # collapseNumbers (d # cs)) =
          c # collapseDir k (collapseNumbers (d # cs))"
        by (rule collapseDir_nomatch)
      with eq ih show ?thesis by simp
    qed
  qed
qed


subsection \<open>The file rule\<close>

lemma split_at_last:
  assumes "x \<notin> set b"
  shows "rev (takeWhile (\<lambda>c. c \<noteq> x) (rev (a @ x # b))) = b"
    and "rev (dropWhile (\<lambda>c. c \<noteq> x) (rev (a @ x # b))) = a @ [x]"
proof -
  have "takeWhile (\<lambda>c. c \<noteq> x) (rev b @ x # rev a) =
      rev b @ takeWhile (\<lambda>c. c \<noteq> x) (x # rev a)"
    by (rule takeWhile_append2) (use assms in auto)
  moreover have "dropWhile (\<lambda>c. c \<noteq> x) (rev b @ x # rev a) =
      dropWhile (\<lambda>c. c \<noteq> x) (x # rev a)"
    by (rule dropWhile_append2) (use assms in auto)
  ultimately have "takeWhile (\<lambda>c. c \<noteq> x) (rev b @ x # rev a) = rev b"
    and "dropWhile (\<lambda>c. c \<noteq> x) (rev b @ x # rev a) = x # rev a"
    by simp_all
  then show "rev (takeWhile (\<lambda>c. c \<noteq> x) (rev (a @ x # b))) = b"
    and "rev (dropWhile (\<lambda>c. c \<noteq> x) (rev (a @ x # b))) = a @ [x]"
    by simp_all
qed

lemma split_exists:
  assumes "x \<in> set s"
  shows "\<exists>a. s = a @ x # rev (takeWhile (\<lambda>c. c \<noteq> x) (rev s)) \<and>
             rev (dropWhile (\<lambda>c. c \<noteq> x) (rev s)) = a @ [x]"
proof -
  let ?d = "dropWhile (\<lambda>c. c \<noteq> x) (rev s)"
  from assms have ne: "?d \<noteq> []" by auto
  then have "hd ?d = x" using hd_dropWhile [of "\<lambda>c. c \<noteq> x" "rev s"] by simp
  with ne obtain r where d: "?d = x # r" by (cases ?d) auto
  have "rev s = takeWhile (\<lambda>c. c \<noteq> x) (rev s) @ ?d" by simp
  then have "s = rev ?d @ rev (takeWhile (\<lambda>c. c \<noteq> x) (rev s))"
    by (metis rev_append rev_rev_ident)
  with d show ?thesis by auto
qed

lemma lastSegment_append:
  "CHR ''/'' \<notin> set b \<Longrightarrow> lastSegment (a @ CHR ''/'' # b) = b"
  "CHR ''/'' \<notin> set b \<Longrightarrow> upToLastSlash (a @ CHR ''/'' # b) = a @ ''/''"
  unfolding lastSegment_def upToLastSlash_def by (rule split_at_last, assumption)+

lemma slash_split:
  assumes "CHR ''/'' \<in> set s"
  shows "\<exists>a. s = a @ CHR ''/'' # lastSegment s \<and> upToLastSlash s = a @ ''/''"
  using split_exists [OF assms] unfolding lastSegment_def upToLastSlash_def by simp

lemma no_slash_lastSegment: "CHR ''/'' \<notin> set (lastSegment s)"
  unfolding lastSegment_def by (auto dest: set_takeWhileD)

lemma extension_append:
  "CHR ''.'' \<notin> set e \<Longrightarrow> extensionOf (st @ CHR ''.'' # e) = e"
  "CHR ''.'' \<notin> set e \<Longrightarrow> stemOf (st @ CHR ''.'' # e) = st @ ''.''"
  unfolding extensionOf_def stemOf_def by (rule split_at_last, assumption)+

lemma no_dot_extensionOf: "CHR ''.'' \<notin> set (extensionOf seg)"
  unfolding extensionOf_def by (auto dest: set_takeWhileD)

lemma stem_extension: "stemOf seg @ extensionOf seg = seg"
  unfolding stemOf_def extensionOf_def by (metis rev_append rev_rev_ident takeWhile_dropWhile_id)

lemma matchesFile_iff:
  "matchesFile seg \<longleftrightarrow>
     (\<exists>st e. seg = st @ CHR ''.'' # e \<and> st \<noteq> [] \<and> CHR ''.'' \<notin> set e \<and> isFileExtension e)"
proof
  assume m: "matchesFile seg"
  then have len: "2 \<le> length (stemOf seg)" and ext: "isFileExtension (extensionOf seg)"
    by (simp_all add: matchesFile_def)
  have "CHR ''.'' \<in> set seg"
  proof (rule ccontr)
    assume "CHR ''.'' \<notin> set seg"
    then have "dropWhile (\<lambda>c. c \<noteq> CHR ''.'') (rev seg) = []" by auto
    with len show False by (simp add: stemOf_def)
  qed
  from split_exists [OF this]
  obtain a where a: "seg = a @ CHR ''.'' # extensionOf seg" "stemOf seg = a @ ''.''"
    unfolding extensionOf_def stemOf_def by blast
  with len have "a \<noteq> []" by auto
  with a ext no_dot_extensionOf [of seg] show
    "\<exists>st e. seg = st @ CHR ''.'' # e \<and> st \<noteq> [] \<and> CHR ''.'' \<notin> set e \<and> isFileExtension e"
    by blast
next
  assume "\<exists>st e. seg = st @ CHR ''.'' # e \<and> st \<noteq> [] \<and> CHR ''.'' \<notin> set e \<and> isFileExtension e"
  then obtain st e where seg: "seg = st @ CHR ''.'' # e" and st: "st \<noteq> []"
    and e: "CHR ''.'' \<notin> set e" "isFileExtension e"
    by blast
  from extension_append [OF e(1), of st] seg
  have "extensionOf seg = e" "stemOf seg = st @ ''.''" by simp_all
  moreover from st have "2 \<le> length (st @ ''.'')" by (cases st) simp_all
  ultimately show "matchesFile seg" using e(2) by (simp add: matchesFile_def)
qed

lemma collapseFile_fix_iff:
  "collapseFile s = s \<longleftrightarrow>
     \<not> (CHR ''/'' \<in> set s \<and> matchesFile (lastSegment s)) \<or> stemOf (lastSegment s) = ''*.''"
proof (cases "CHR ''/'' \<in> set s \<and> matchesFile (lastSegment s)")
  case False
  then show ?thesis by (auto simp: collapseFile_def)
next
  case True
  from slash_split obtain a where a: "s = a @ CHR ''/'' # lastSegment s"
    "upToLastSlash s = a @ ''/''"
    using True by blast
  let ?seg = "lastSegment s"
  have "collapseFile s = a @ ''/'' @ ''*.'' @ extensionOf ?seg"
    using True a(2) by (simp add: collapseFile_def)
  moreover have "s = a @ ''/'' @ stemOf ?seg @ extensionOf ?seg"
    using a(1) by (simp add: stem_extension)
  ultimately have "collapseFile s = s \<longleftrightarrow> ''*.'' @ extensionOf ?seg = stemOf ?seg @ extensionOf ?seg"
    by (metis same_append_eq)
  then have "collapseFile s = s \<longleftrightarrow> stemOf ?seg = ''*.''"
    by (metis append_same_eq)
  with True show ?thesis by simp
qed

lemma upperChar_letter:
  assumes "upperChar c \<in> set ''ABCDEFGHIJKLMNOPQRSTUVWXYZ''"
  shows "isLetter c"
proof (cases "map_of (zip ''abcdefghijklmnopqrstuvwxyz'' ''ABCDEFGHIJKLMNOPQRSTUVWXYZ'') c")
  case None
  with assms show ?thesis by (simp add: upperChar_def isLetter_def)
next
  case (Some u)
  then have "c \<in> set ''abcdefghijklmnopqrstuvwxyz''"
    by (metis map_of_SomeD set_zip_leftD)
  then show ?thesis by (simp add: isLetter_def)
qed

lemma fileExtensions_upper:
  "list_all (\<lambda>x. set x \<subseteq> set ''ABCDEFGHIJKLMNOPQRSTUVWXYZ'') (map toUpperCase fileExtensions)"
  by code_simp

lemma isFileExtension_letters:
  assumes "isFileExtension e" and "c \<in> set e"
  shows "isLetter c"
proof -
  from assms(1) fileExtensions_upper
  have "set (toUpperCase e) \<subseteq> set ''ABCDEFGHIJKLMNOPQRSTUVWXYZ''"
    unfolding isFileExtension_def list_all_iff by blast
  with assms(2) have "upperChar c \<in> set ''ABCDEFGHIJKLMNOPQRSTUVWXYZ''"
    by (auto simp: toUpperCase_def)
  then show ?thesis by (rule upperChar_letter)
qed

lemma isFileExtension_plain:
  assumes "isFileExtension e"
  shows "CHR '':'' \<notin> set e" and "CHR ''*'' \<notin> set e"
proof -
  have "\<not> isLetter (CHR '':'')" "\<not> isLetter (CHR ''*'')" by (simp_all add: isLetter_def)
  with isFileExtension_letters [OF assms] show "CHR '':'' \<notin> set e" and "CHR ''*'' \<notin> set e"
    by blast+
qed

lemma collapseFile_idem: "collapseFile (collapseFile s) = collapseFile s"
proof (cases "CHR ''/'' \<in> set s \<and> matchesFile (lastSegment s)")
  case False
  then show ?thesis by (auto simp: collapseFile_def)
next
  case True
  let ?e = "extensionOf (lastSegment s)"
  from slash_split obtain a where a: "upToLastSlash s = a @ ''/''"
    using True by blast
  have e: "CHR ''.'' \<notin> set ?e" "CHR ''/'' \<notin> set ?e" "isFileExtension ?e"
    using no_dot_extensionOf [of "lastSegment s"] isFileExtension_letters [of ?e "CHR ''/''"] True
    by (auto simp: matchesFile_def isLetter_def)
  have r: "collapseFile s = a @ CHR ''/'' # (''*'' @ CHR ''.'' # ?e)"
    using True a by (simp add: collapseFile_def)
  have seg: "lastSegment (collapseFile s) = ''*'' @ CHR ''.'' # ?e"
    unfolding r using e(2) by (subst lastSegment_append) simp_all
  have "stemOf (lastSegment (collapseFile s)) = ''*.''"
    unfolding seg using e(1) by (subst extension_append) simp_all
  then show ?thesis by (simp add: collapseFile_fix_iff)
qed

lemma collapseFile_fix_dir:
  assumes "noLineTerminator s" and "collapseFile s = s"
  shows "collapseFile (collapseDir d s) = collapseDir d s"
proof -
  from collapseDir_shape [OF assms(1), of d]
  show ?thesis
  proof
    assume "collapseDir d s = s"
    with assms(2) show ?thesis by simp
  next
    assume "\<exists>a. collapseDir d s = a @ ''/'' @ d @ ''/*''"
    then obtain a where eq: "collapseDir d s = (a @ ''/'' @ d) @ CHR ''/'' # ''*''" by auto
    have "lastSegment ((a @ ''/'' @ d) @ CHR ''/'' # ''*'') = ''*''"
      by (rule lastSegment_append) simp
    with eq have "lastSegment (collapseDir d s) = ''*''"
      by (simp only:)
    then have "\<not> matchesFile (lastSegment (collapseDir d s))"
      by (simp add: matchesFile_def stemOf_def)
    then show ?thesis by (simp add: collapseFile_def)
  qed
qed


lemma collapsePort_slash: "collapsePort (CHR ''/'' # b) = CHR ''/'' # collapsePort b"
  by (cases b) auto

lemma collapsePort_append_slash:
  "collapsePort (a @ CHR ''/'' # b) =
     (if hasPort a then collapsePort a @ CHR ''/'' # b else a @ CHR ''/'' # collapsePort b)"
proof (induction a rule: collapsePort.induct)
  case 1
  then show ?case by (simp add: collapsePort_slash)
next
  case (2 c)
  have "\<not> isDigit (CHR ''/'')" by (simp add: isDigit_def)
  then show ?case by (simp add: collapsePort_slash)
next
  case (3 c d cs)
  have nd: "\<not> isDigit (CHR ''/'')" by (simp add: isDigit_def)
  show ?case
  proof (cases "c = CHR '':'' \<and> isDigit d")
    case True
    with nd show ?thesis by (simp add: dropWhile_append3)
  next
    case False
    with 3 show ?thesis by auto
  qed
qed

lemma hasPort_decompose:
  "hasPort x \<Longrightarrow>
   \<exists>u ds v. x = u @ CHR '':'' # ds @ v \<and> ds \<noteq> [] \<and> collapsePort x = u @ '':*'' @ v"
proof (induction x rule: collapsePort.induct)
  case 1
  then show ?case by simp
next
  case (2 c)
  then show ?case by simp
next
  case (3 c d cs)
  show ?case
  proof (cases "c = CHR '':'' \<and> isDigit d")
    case True
    then have "c # d # cs = [] @ CHR '':'' # (d # takeWhile isDigit cs) @ dropWhile isDigit cs"
      and "collapsePort (c # d # cs) = [] @ '':*'' @ dropWhile isDigit cs"
      by simp_all
    then show ?thesis by blast
  next
    case False
    then have step: "collapsePort (c # d # cs) = c # collapsePort (d # cs)" by auto
    from False 3 obtain u ds v where x: "d # cs = u @ CHR '':'' # ds @ v" and ds: "ds \<noteq> []"
      and p: "collapsePort (d # cs) = u @ '':*'' @ v"
      by auto
    from x have "c # d # cs = (c # u) @ CHR '':'' # ds @ v" by simp
    moreover have "collapsePort (c # d # cs) = (c # u) @ '':*'' @ v"
      by (simp only: step p append_Cons)
    ultimately show ?thesis using ds by blast
  qed
qed

lemma suffix_after:
  assumes "xs @ x # ys = zs @ ts" and "x \<notin> set ts"
  shows "\<exists>w. ys = w @ ts"
proof -
  from assms(1) have "(xs @ [x]) @ ys = zs @ ts" by simp
  then obtain us where "xs @ [x] = zs @ us \<and> us @ ys = ts \<or> (xs @ [x]) @ us = zs \<and> ys = us @ ts"
    unfolding append_eq_append_conv2 by blast
  then show ?thesis
  proof
    assume a: "xs @ [x] = zs @ us \<and> us @ ys = ts"
    show ?thesis
    proof (cases "us = []")
      case True
      with a show ?thesis by auto
    next
      case False
      with a have "last us = x" by (metis last_appendR last_snoc)
      with False have "x \<in> set us" using last_in_set by blast
      with a assms(2) show ?thesis by auto
    qed
  next
    assume "(xs @ [x]) @ us = zs \<and> ys = us @ ts"
    then show ?thesis by blast
  qed
qed

lemma no_colon_no_port: "CHR '':'' \<notin> set x \<Longrightarrow> \<not> hasPort x"
  by (induction x rule: hasPort.induct) auto

lemma star_dot_segment:
  assumes "stemOf seg = ''*.''"
  shows "\<exists>e. seg = CHR ''*'' # CHR ''.'' # e \<and> e = extensionOf seg"
  using stem_extension [of seg] assms by (metis append_Cons append_Nil)

lemma matchesFile_port:
  assumes "matchesFile (collapsePort seg)"
  shows "matchesFile seg"
proof (cases "hasPort seg")
  case False
  with assms show ?thesis by (simp add: collapsePort_id)
next
  case True
  from hasPort_decompose [OF True]
  obtain u ds v where seg: "seg = u @ CHR '':'' # ds @ v" and "ds \<noteq> []"
    and p: "collapsePort seg = u @ '':*'' @ v"
    by blast
  from assms obtain st e where eq: "collapsePort seg = st @ CHR ''.'' # e"
    and e: "CHR ''.'' \<notin> set e" "isFileExtension e"
    unfolding matchesFile_iff by blast
  from p eq have "(u @ '':'') @ CHR ''*'' # v = st @ (CHR ''.'' # e)" by simp
  moreover have "CHR ''*'' \<notin> set (CHR ''.'' # e)"
    using isFileExtension_plain(2) [OF e(2)] by simp
  ultimately obtain w where "v = w @ CHR ''.'' # e" by (blast dest: suffix_after)
  with seg have "seg = (u @ CHR '':'' # ds @ w) @ CHR ''.'' # e" by simp
  moreover have "u @ CHR '':'' # ds @ w \<noteq> []" by simp
  ultimately show ?thesis using e unfolding matchesFile_iff by blast
qed

lemma collapseFile_fix_port:
  assumes "collapseFile s = s"
  shows "collapseFile (collapsePort s) = collapsePort s"
proof (cases "CHR ''/'' \<in> set s")
  case False
  with set_collapsePort [of s] have "CHR ''/'' \<notin> set (collapsePort s)" by auto
  then show ?thesis by (simp add: collapseFile_def)
next
  case True
  define seg where "seg = lastSegment s"
  from slash_split [OF True] obtain a where s: "s = a @ CHR ''/'' # seg"
    unfolding seg_def by blast
  have ns: "CHR ''/'' \<notin> set seg"
    unfolding seg_def by (rule no_slash_lastSegment)
  from assms True have fx: "\<not> matchesFile seg \<or> stemOf seg = ''*.''"
    unfolding seg_def by (simp add: collapseFile_fix_iff)
  have same: ?thesis if l: "lastSegment (collapsePort s) = seg"
    unfolding collapseFile_fix_iff l using fx by blast
  show ?thesis
  proof (cases "hasPort a")
    case hp: True
    have "collapsePort s = collapsePort a @ CHR ''/'' # seg"
      unfolding s collapsePort_append_slash using hp by simp
    then have "lastSegment (collapsePort s) = seg"
      using lastSegment_append(1) [OF ns] by simp
    then show ?thesis by (rule same)
  next
    case np: False
    have ps: "collapsePort s = a @ CHR ''/'' # collapsePort seg"
      unfolding s collapsePort_append_slash using np by simp
    have "CHR ''/'' \<notin> set (collapsePort seg)"
      using set_collapsePort [of seg] ns by auto
    with ps have l: "lastSegment (collapsePort s) = collapsePort seg"
      using lastSegment_append(1) by simp
    show ?thesis
    proof (cases "matchesFile seg")
      case False
      with matchesFile_port have "\<not> matchesFile (collapsePort seg)" by blast
      then show ?thesis unfolding collapseFile_fix_iff l by blast
    next
      case True
      with fx have "stemOf seg = ''*.''" by simp
      from star_dot_segment [OF this] obtain e
        where seg: "seg = CHR ''*'' # CHR ''.'' # e" and e: "e = extensionOf seg"
        by blast
      from True e have "isFileExtension e" by (simp add: matchesFile_def)
      from isFileExtension_plain(1) [OF this]
      have "CHR '':'' \<notin> set (CHR ''*'' # CHR ''.'' # e)" by simp
      with seg have "CHR '':'' \<notin> set seg" by metis
      then have "\<not> hasPort seg" by (rule no_colon_no_port)
      then have "collapsePort seg = seg" by (rule collapsePort_id)
      with l have "lastSegment (collapsePort s) = seg" by (simp only:)
      then show ?thesis by (rule same)
    qed
  qed
qed

lemma collapseNumbers_no_slash: "CHR ''/'' \<notin> set s \<Longrightarrow> collapseNumbers s = s"
  by (induction s rule: collapseNumbers.induct) auto

lemma collapseNumbers_slash_head:
  assumes "CHR ''/'' \<notin> set b"
  shows "collapseNumbers (CHR ''/'' # b) =
           CHR ''/'' # (if b \<noteq> [] \<and> isDigit (hd b) then CHR ''*'' # dropWhile isDigit b else b)"
proof (cases b)
  case Nil
  then show ?thesis by simp
next
  case (Cons x xs)
  have "set (dropWhile isDigit xs) \<subseteq> set xs" by (meson set_dropWhileD subsetI)
  with assms Cons have ns1: "CHR ''/'' \<notin> set (dropWhile isDigit xs)"
    and ns2: "CHR ''/'' \<notin> set (x # xs)"
    by auto
  have "collapseNumbers (dropWhile isDigit xs) = dropWhile isDigit xs"
    using ns1 by (rule collapseNumbers_no_slash)
  moreover have "collapseNumbers (x # xs) = x # xs"
    using ns2 by (rule collapseNumbers_no_slash)
  ultimately show ?thesis using Cons by (cases "isDigit x") simp_all
qed

lemma collapseNumbers_append_slash:
  assumes "CHR ''/'' \<notin> set b"
  shows "\<exists>a'. collapseNumbers (a @ CHR ''/'' # b) =
           a' @ CHR ''/'' # (if b \<noteq> [] \<and> isDigit (hd b) then CHR ''*'' # dropWhile isDigit b else b)"
proof (induction a rule: collapseNumbers.induct)
  case 1
  from collapseNumbers_slash_head [OF assms] show ?case by (metis append_Nil)
next
  case (2 c)
  have nd: "\<not> isDigit (CHR ''/'')" by (simp add: isDigit_def)
  then have "collapseNumbers ([c] @ CHR ''/'' # b) = c # collapseNumbers (CHR ''/'' # b)"
    by simp
  with collapseNumbers_slash_head [OF assms]
  have "collapseNumbers ([c] @ CHR ''/'' # b) =
      [c] @ CHR ''/'' # (if b \<noteq> [] \<and> isDigit (hd b) then CHR ''*'' # dropWhile isDigit b else b)"
    by (simp only: append_Cons append_Nil)
  then show ?case by blast
next
  case (3 c d cs)
  have nd: "\<not> isDigit (CHR ''/'')" by (simp add: isDigit_def)
  show ?case
  proof (cases "c = CHR ''/'' \<and> isDigit d")
    case True
    from 3(1) [OF True] obtain a' where
      ih: "collapseNumbers (dropWhile isDigit cs @ CHR ''/'' # b) =
         a' @ CHR ''/'' # (if b \<noteq> [] \<and> isDigit (hd b) then CHR ''*'' # dropWhile isDigit b else b)"
      by blast
    from True nd have "collapseNumbers ((c # d # cs) @ CHR ''/'' # b) =
        ''/*'' @ collapseNumbers (dropWhile isDigit cs @ CHR ''/'' # b)"
      by (simp add: dropWhile_append3)
    with ih have "collapseNumbers ((c # d # cs) @ CHR ''/'' # b) =
        (''/*'' @ a') @ CHR ''/'' # (if b \<noteq> [] \<and> isDigit (hd b) then CHR ''*'' # dropWhile isDigit b else b)"
      by (simp only: append_assoc)
    then show ?thesis by blast
  next
    case False
    from 3(2) [OF False] obtain a' where
      ih: "collapseNumbers ((d # cs) @ CHR ''/'' # b) =
         a' @ CHR ''/'' # (if b \<noteq> [] \<and> isDigit (hd b) then CHR ''*'' # dropWhile isDigit b else b)"
      by blast
    from False have "collapseNumbers ((c # d # cs) @ CHR ''/'' # b) =
        c # collapseNumbers ((d # cs) @ CHR ''/'' # b)"
      by auto
    with ih have "collapseNumbers ((c # d # cs) @ CHR ''/'' # b) =
        (c # a') @ CHR ''/'' # (if b \<noteq> [] \<and> isDigit (hd b) then CHR ''*'' # dropWhile isDigit b else b)"
      by (simp only: append_Cons)
    then show ?thesis by blast
  qed
qed

lemma matchesFile_numbers:
  assumes "matchesFile (CHR ''*'' # dropWhile isDigit seg)"
    and "seg \<noteq> []" and "isDigit (hd seg)"
  shows "matchesFile seg"
proof -
  from assms(1) obtain st e where eq: "CHR ''*'' # dropWhile isDigit seg = st @ CHR ''.'' # e"
    and st: "st \<noteq> []" and e: "CHR ''.'' \<notin> set e" "isFileExtension e"
    unfolding matchesFile_iff by blast
  from st eq obtain st1 where "dropWhile isDigit seg = st1 @ CHR ''.'' # e"
    by (cases st) auto
  then have "seg = (takeWhile isDigit seg @ st1) @ CHR ''.'' # e"
    by (metis append.assoc takeWhile_dropWhile_id)
  moreover from assms(2,3) have "takeWhile isDigit seg @ st1 \<noteq> []"
    by (cases seg) auto
  ultimately show ?thesis using e unfolding matchesFile_iff by blast
qed

lemma collapseFile_fix_numbers:
  assumes "collapseFile s = s"
  shows "collapseFile (collapseNumbers s) = collapseNumbers s"
proof (cases "CHR ''/'' \<in> set s")
  case False
  with set_collapseNumbers [of s] have "CHR ''/'' \<notin> set (collapseNumbers s)" by auto
  then show ?thesis by (simp add: collapseFile_def)
next
  case True
  define seg where "seg = lastSegment s"
  define seg' where
    "seg' = (if seg \<noteq> [] \<and> isDigit (hd seg) then CHR ''*'' # dropWhile isDigit seg else seg)"
  from slash_split [OF True] obtain a where s: "s = a @ CHR ''/'' # seg"
    unfolding seg_def by blast
  have ns: "CHR ''/'' \<notin> set seg"
    unfolding seg_def by (rule no_slash_lastSegment)
  from assms True have fx: "\<not> matchesFile seg \<or> stemOf seg = ''*.''"
    unfolding seg_def by (simp add: collapseFile_fix_iff)
  from collapseNumbers_append_slash [OF ns, of a]
  obtain a' where q: "collapseNumbers s = a' @ CHR ''/'' # seg'"
    unfolding s seg'_def by blast
  have "set (dropWhile isDigit seg) \<subseteq> set seg" by (meson set_dropWhileD subsetI)
  with ns have "CHR ''/'' \<notin> set seg'" unfolding seg'_def by auto
  then have "lastSegment (a' @ CHR ''/'' # seg') = seg'" by (rule lastSegment_append)
  with q have l: "lastSegment (collapseNumbers s) = seg'" by (simp only:)
  show ?thesis
  proof (cases "matchesFile seg")
    case False
    have "\<not> matchesFile seg'"
    proof (cases "seg \<noteq> [] \<and> isDigit (hd seg)")
      case True
      with matchesFile_numbers [of seg] False show ?thesis unfolding seg'_def by auto
    next
      case nd: False
      then have "seg' = seg" unfolding seg'_def by (simp only: if_False)
      with False show ?thesis by simp
    qed
    then show ?thesis unfolding collapseFile_fix_iff l by blast
  next
    case True
    with fx have stem: "stemOf seg = ''*.''" by simp
    from star_dot_segment [OF this] obtain e where "seg = CHR ''*'' # CHR ''.'' # e"
      by blast
    then have "hd seg = CHR ''*''" by simp
    then have "seg' = seg" unfolding seg'_def by (simp add: isDigit_def)
    with l stem show ?thesis unfolding collapseFile_fix_iff by simp
  qed
qed


subsection \<open>The whole chain\<close>

lemma generalize_fold:
  "generalize t =
     collapseNumbers (collapsePort
       (foldl (\<lambda>s d. collapseDir d s) (collapseFile (normalizeSeparators t)) dirNames))"
  by (simp add: generalize_def dirNames_def)

lemma dirNames_plain:
  "list_all (\<lambda>k. CHR ''/'' \<notin> set k \<and> CHR '':'' \<notin> set k \<and> k \<noteq> [] \<and> \<not> isDigit (hd k) \<and>
      hd k \<noteq> CHR ''*'') dirNames"
  by code_simp

lemma dirNames_collapsed_dir:
  "list_all (\<lambda>j. list_all (\<lambda>k. collapseDir k (''/'' @ j @ ''/*'') = ''/'' @ j @ ''/*'') dirNames)
     dirNames"
  by code_simp

lemma dirNames_collapsed_numeric:
  "list_all (\<lambda>k. collapsePort (''/'' @ k @ ''/*'') = ''/'' @ k @ ''/*'' \<and>
      collapseNumbers (''/'' @ k @ ''/*'') = ''/'' @ k @ ''/*'') dirNames"
  by code_simp

lemma noLineTerminator_star:
  "noLineTerminator s \<Longrightarrow> set t \<subseteq> insert (CHR ''*'') (set s) \<Longrightarrow> noLineTerminator t"
  by (rule noLineTerminator_subset) auto

lemma dirs_invariant:
  assumes "set ds \<subseteq> set dirNames"
    and "noLineTerminator s" and "collapseFile s = s" and "CHR 0x5C \<notin> set s"
  shows "noLineTerminator (foldl (\<lambda>s d. collapseDir d s) s ds) \<and>
         collapseFile (foldl (\<lambda>s d. collapseDir d s) s ds) = foldl (\<lambda>s d. collapseDir d s) s ds \<and>
         CHR 0x5C \<notin> set (foldl (\<lambda>s d. collapseDir d s) s ds) \<and>
         (\<forall>k \<in> set ds. collapseDir k (foldl (\<lambda>s d. collapseDir d s) s ds) =
            foldl (\<lambda>s d. collapseDir d s) s ds)"
  using assms(1)
proof (induction ds rule: rev_induct)
  case Nil
  with assms(2-4) show ?case by simp
next
  case (snoc j ds)
  let ?z = "foldl (\<lambda>s d. collapseDir d s) s ds"
  from snoc have ih: "noLineTerminator ?z" "collapseFile ?z = ?z" "CHR 0x5C \<notin> set ?z"
    "\<forall>k \<in> set ds. collapseDir k ?z = ?z"
    and j: "j \<in> set dirNames" and ds: "set ds \<subseteq> set dirNames"
    by auto
  from j dirNames_plain have sj: "CHR ''/'' \<notin> set j" by (auto simp: list_all_iff)
  have "noLineTerminator (collapseDir j ?z)"
    using ih(1) set_collapseDir by (rule noLineTerminator_star)
  moreover have "collapseFile (collapseDir j ?z) = collapseDir j ?z"
    using ih(1,2) by (rule collapseFile_fix_dir)
  moreover have "CHR 0x5C \<notin> set (collapseDir j ?z)"
    using ih(3) set_collapseDir [of j ?z] by auto
  moreover have "collapseDir k (collapseDir j ?z) = collapseDir j ?z" if k: "k \<in> set (ds @ [j])" for k
  proof (cases "k = j")
    case True
    with collapseDir_idem [OF sj ih(1)] show ?thesis by simp
  next
    case False
    with k have kd: "k \<in> set ds" by simp
    with ds have kn: "k \<in> set dirNames" by auto
    with dirNames_plain have sk: "CHR ''/'' \<notin> set k" by (auto simp: list_all_iff)
    from j kn dirNames_collapsed_dir
    have a: "collapseDir k (''/'' @ j @ ''/*'') = ''/'' @ j @ ''/*''"
      and b: "collapseDir j (''/'' @ k @ ''/*'') = ''/'' @ k @ ''/*''"
      by (auto simp: list_all_iff)
    from ih(4) kd have "collapseDir k ?z = ?z" by blast
    with collapseDir_fix_dir [OF sk a b ih(1)] show ?thesis by blast
  qed
  ultimately show ?case by simp
qed

lemma dirs_identity:
  "\<forall>k \<in> set ds. collapseDir k y = y \<Longrightarrow> foldl (\<lambda>s d. collapseDir d s) y ds = y"
  by (induction ds) simp_all

lemma generalize_fixed:
  assumes "noLineTerminator t" and "\<not> hasPort (generalize t)"
  shows "generalize (generalize t) = generalize t"
proof -
  let ?n = "normalizeSeparators t"
  let ?e = "collapseFile ?n"
  let ?z = "foldl (\<lambda>s d. collapseDir d s) ?e dirNames"
  let ?p = "collapsePort ?z"
  let ?y = "collapseNumbers ?p"
  have y: "generalize t = ?y" by (rule generalize_fold)
  have "set ?n \<subseteq> {CHR ''*'', CHR ''.'', CHR ''/''} \<union> set t"
    using set_normalizeSeparators [of t] by auto
  with assms(1) have nl_n: "noLineTerminator ?n" by (rule noLineTerminator_subset)
  have "set ?e \<subseteq> {CHR ''*'', CHR ''.'', CHR ''/''} \<union> set ?n"
    using set_collapseFile [of ?n] by auto
  with nl_n have nl_e: "noLineTerminator ?e" by (rule noLineTerminator_subset)
  have bs_e: "CHR 0x5C \<notin> set ?e"
    using set_collapseFile [of ?n] set_normalizeSeparators [of t] by auto
  have fx_e: "collapseFile ?e = ?e" by (rule collapseFile_idem)
  from dirs_invariant [OF subset_refl nl_e fx_e bs_e]
  have z: "noLineTerminator ?z" "collapseFile ?z = ?z" "CHR 0x5C \<notin> set ?z"
    "\<forall>k \<in> set dirNames. collapseDir k ?z = ?z"
    by blast+
  have nl_p: "noLineTerminator ?p"
    using z(1) set_collapsePort by (rule noLineTerminator_star)
  have bs_y: "CHR 0x5C \<notin> set ?y"
    using z(3) set_collapsePort [of ?z] set_collapseNumbers [of ?p] by auto
  have file_y: "collapseFile ?y = ?y"
    using z(2) by (intro collapseFile_fix_numbers collapseFile_fix_port)
  have dir_y: "collapseDir k ?y = ?y" if k: "k \<in> set dirNames" for k
  proof -
    from k dirNames_plain have pl: "CHR ''/'' \<notin> set k" "CHR '':'' \<notin> set k" "k \<noteq> []"
      "\<not> isDigit (hd k)" "hd k \<noteq> CHR ''*''"
      by (auto simp: list_all_iff)
    from k dirNames_collapsed_numeric
    have cp: "collapsePort (''/'' @ k @ ''/*'') = ''/'' @ k @ ''/*''"
      and cn: "collapseNumbers (''/'' @ k @ ''/*'') = ''/'' @ k @ ''/*''"
      by (auto simp: list_all_iff)
    from z(4) k have "collapseDir k ?z = ?z" by blast
    from collapseDir_fix_port [OF pl(2) cp z(1) this]
    have "collapseDir k ?p = ?p" .
    from collapseDir_fix_numbers [OF pl(1) pl(3) pl(4) pl(5) cn nl_p this]
    show ?thesis .
  qed
  have port_y: "collapsePort ?y = ?y"
    using assms(2) unfolding y by (rule collapsePort_id)
  have num_y: "collapseNumbers ?y = ?y" by (rule collapseNumbers_idem)
  have "generalize ?y =
      collapseNumbers (collapsePort
        (foldl (\<lambda>s d. collapseDir d s) (collapseFile (normalizeSeparators ?y)) dirNames))"
    by (rule generalize_fold)
  also have "normalizeSeparators ?y = ?y" using bs_y by (rule normalizeSeparators_id)
  also have "collapseFile ?y = ?y" by (rule file_y)
  also have "foldl (\<lambda>s d. collapseDir d s) ?y dirNames = ?y"
    using dir_y by (intro dirs_identity) blast
  also have "collapsePort ?y = ?y" by (rule port_y)
  also have "collapseNumbers ?y = ?y" by (rule num_y)
  finally show ?thesis unfolding y .
qed

lemma url_noLineTerminator:
  "noLineTerminator ''http://localhost:3000/api/users/42/profile.json''"
  by code_simp

lemma url_pattern:
  "generalize ''http://localhost:3000/api/users/42/profile.json'' =
     ''http://localhost:*/api/users/*/*.json''"
  by code_simp

lemma url_pattern_no_port: "\<not> hasPort ''http://localhost:*/api/users/*/*.json''"
  by code_simp

text \<open>
  C3, pattern idempotence, fails as stated. The port rule \<^verbatim>\<open>/:\d+/\<close> has no \<^verbatim>\<open>g\<close>
  flag and rewrites only the first colon that is followed by digits, so a second pass
  rewrites the next one; and the \<^verbatim>\<open>.*\<close> of the directory rules stops at a line
  terminator, so a second pass can collapse a directory that the first pass left behind
  it. Both targets below are plain ASCII.
\<close>

theorem pattern_idempotence_counterexample:
  "generalize (generalize ''host:80:443'') \<noteq> generalize ''host:80:443''
   \<and> generalize (generalize ''/dist/node_modules/a\<newline>/node_modules/b'') \<noteq>
       generalize ''/dist/node_modules/a\<newline>/node_modules/b''
   \<and> extractPattern ((writeRequest ''host:80:443'')\<lparr>target := generalize ''host:80:443''\<rparr>) \<noteq>
       extractPattern (writeRequest ''host:80:443'')"
  by code_simp

text \<open>
  C3 as amended: for every target whose code units all lie in U+0000 .. U+00FF (every
  \<^typ>\<open>string\<close> is such a target, and only those are), that contains no line terminator and
  whose generalized form contains no colon followed by a digit, generalizing the
  generalized target yields it again, and so the pattern of a request whose target is an
  already generalized one is the pattern of the original request.

  The limit to Latin-1 targets is the limit of the string model, and the amended claim
  states it because the theorem proves nothing beyond it. It is where the two classes of
  line terminators part: below U+0100 a target without LF and CR has no line terminator
  at all (\<open>isLineTerminator_codes\<close>), so \<open>noLineTerminator\<close> is the condition the code's
  \<^verbatim>\<open>.*\<close> depends on; above it, U+2028 and U+2029 stop \<^verbatim>\<open>.*\<close> as LF does in the
  counterexample, and a target holding one of them would have to be excluded as well.
  The other expressions of \<open>extractPattern\<close> name literal ASCII characters, \<^verbatim>\<open>\d\<close>
  (the ASCII digits only) and \<^verbatim>\<open>[^\/]\<close>, and the \<^verbatim>\<open>i\<close> flag of the file rule
  identifies no code unit above U+007F with an ASCII letter.
\<close>

theorem pattern_idempotence:
  assumes "noLineTerminator (target request)"
    and "\<not> hasPort (generalize (target request))"
  shows "generalize (generalize (target request)) = generalize (target request)
         \<and> extractPattern (request\<lparr>target := generalize (target request)\<rparr>) =
             extractPattern request"
  using generalize_fixed [OF assms] by (simp add: extractPattern_def)

theorem pattern_idempotence_witness:
  "noLineTerminator (target (writeRequest ''http://localhost:3000/api/users/42/profile.json''))
   \<and> \<not> hasPort (generalize (target (writeRequest ''http://localhost:3000/api/users/42/profile.json'')))
   \<and> generalize ''http://localhost:3000/api/users/42/profile.json'' =
       ''http://localhost:*/api/users/*/*.json''
   \<and> generalize ''http://localhost:*/api/users/*/*.json'' =
       ''http://localhost:*/api/users/*/*.json''"
proof -
  let ?r = "writeRequest ''http://localhost:3000/api/users/42/profile.json''"
  have t: "target ?r = ''http://localhost:3000/api/users/42/profile.json''"
    by (simp add: writeRequest_def)
  have a: "noLineTerminator (target ?r)"
    unfolding t by (rule url_noLineTerminator)
  have b: "\<not> hasPort (generalize (target ?r))"
    unfolding t url_pattern by (rule url_pattern_no_port)
  from pattern_idempotence [OF a b]
  have "generalize (generalize (target ?r)) = generalize (target ?r)" by blast
  then have "generalize ''http://localhost:*/api/users/*/*.json'' =
      ''http://localhost:*/api/users/*/*.json''"
    unfolding t url_pattern .
  with a b url_pattern show ?thesis by blast
qed

end
